theory Spec2Isabelle
  imports Main
begin

section \<open>The parking garage of Design.cpp\<close>

text \<open>
  The C++ classes become records, the member functions become functions that take the
  object and return the result together with the updated object. The \<open>int\<close> fields and
  indices of the source are modelled as \<open>int\<close>: every slot and level index is below the size
  of a vector that the constructor filled with an \<open>int\<close> counter, and every count is at
  most such a size, so no arithmetic of the program leaves the 32-bit range.
  \<open>operator[]\<close> of \<open>std::vector\<close> outside the vector is undefined behaviour in C++; the
  model makes it the result \<open>None\<close>, so every function that indexes a vector with an index it
  was given or has stored returns an \<open>option\<close>. The mutex and the console output have no
  effect on the state and are left out.
\<close>

subsection \<open>MachineKind and Machine\<close>

datatype MachineKind = Bike | Car | Truck

record Machine =
  "identifier" :: string
  kind :: MachineKind

definition slotsNeeded :: "Machine \<Rightarrow> int" where
  "slotsNeeded machine = (if kind machine = Truck then 2 else 1)"

text \<open>The three-way test on the type word of \<open>add_machine\<close> in \<open>main\<close>.\<close>

definition kindOfString :: "string \<Rightarrow> MachineKind" where
  "kindOfString kindStr =
     (if kindStr = ''Bike'' then Bike
      else if kindStr = ''Car'' then Car
      else Truck)"

subsection \<open>Slot\<close>

record Slot =
  levelIndex :: int
  slotIndex :: int
  isOccupied :: bool
  occupantId :: string

text \<open>
  The constructor leaves \<open>occupantId\<close> the empty string. The class \<open>Level\<close> below has a
  field \<open>levelIndex\<close> too; from there on the plain name is the field of \<open>Level\<close>.
\<close>

definition newSlot :: "int \<Rightarrow> int \<Rightarrow> Slot" where
  "newSlot level index =
     \<lparr>levelIndex = level, slotIndex = index, isOccupied = False, occupantId = []\<rparr>"

definition occupySlot :: "Slot \<Rightarrow> string \<Rightarrow> bool \<times> Slot" where
  "occupySlot s machineId =
     (if isOccupied s then (False, s)
      else (True, s\<lparr>occupantId := machineId, isOccupied := True\<rparr>))"

definition vacateSlot :: "Slot \<Rightarrow> bool \<times> Slot" where
  "vacateSlot s =
     (if \<not> isOccupied s then (False, s)
      else (True, s\<lparr>occupantId := [], isOccupied := False\<rparr>))"

subsection \<open>Level\<close>

record Level =
  levelIndex :: int
  slotList :: "Slot list"

text \<open>The constructor's loop \<open>for (int i = 0; i < totalSlots; ++i)\<close>.\<close>

definition newLevel :: "int \<Rightarrow> int \<Rightarrow> Level" where
  "newLevel index totalSlots =
     \<lparr>levelIndex = index, slotList = map (newSlot index) [0..totalSlots - 1]\<rparr>"

text \<open>The range-for loop of \<open>spotsAvailable\<close> for one slot: the first free slot.\<close>

fun firstFree :: "Slot list \<Rightarrow> int list" where
  "firstFree [] = []"
| "firstFree (s # rest) = (if \<not> isOccupied s then [slotIndex s] else firstFree rest)"

text \<open>
  The index loop of \<open>spotsAvailable\<close> for two slots,
  \<open>for (size_t i = 0; i + 1 < slotList.size(); ++i)\<close>, started at \<open>i\<close>.
\<close>

function firstPair :: "Slot list \<Rightarrow> nat \<Rightarrow> int list" where
  "firstPair slots i =
     (if i + 1 < length slots then
        (if \<not> isOccupied (slots ! i) \<and> \<not> isOccupied (slots ! (i + 1))
         then [slotIndex (slots ! i), slotIndex (slots ! (i + 1))]
         else firstPair slots (i + 1))
      else [])"
  by pat_completeness auto
termination
  by (relation "measure (\<lambda>(slots, i). length slots - i)") auto

declare firstPair.simps [simp del]

definition spotsAvailable :: "Level \<Rightarrow> Machine \<Rightarrow> int list" where
  "spotsAvailable lvl machine =
     (let needed = slotsNeeded machine in
      if needed = 1 then firstFree (slotList lvl)
      else firstPair (slotList lvl) 0)"

text \<open>
  \<open>slotList[idx]\<close> with an \<open>int\<close> index: the index is converted to \<open>size_t\<close>, so a
  negative one is out of range like one past the end.
\<close>

definition inRange :: "Slot list \<Rightarrow> int \<Rightarrow> bool" where
  "inRange slots idx \<longleftrightarrow> 0 \<le> idx \<and> nat idx < length slots"

text \<open>First loop of \<open>assignMachine\<close>: are all the slots free?\<close>

fun allFree :: "Slot list \<Rightarrow> int list \<Rightarrow> bool option" where
  "allFree slots [] = Some True"
| "allFree slots (idx # rest) =
     (if \<not> inRange slots idx then None
      else if isOccupied (slots ! nat idx) then Some False
      else allFree slots rest)"

text \<open>Second loop of \<open>assignMachine\<close>: occupy them; the result of \<open>occupySlot\<close> is dropped.\<close>

fun occupyAll :: "Slot list \<Rightarrow> string \<Rightarrow> int list \<Rightarrow> Slot list option" where
  "occupyAll slots machineId [] = Some slots"
| "occupyAll slots machineId (idx # rest) =
     (if \<not> inRange slots idx then None
      else occupyAll (slots[nat idx := snd (occupySlot (slots ! nat idx) machineId)])
             machineId rest)"

definition assignMachine :: "Level \<Rightarrow> Machine \<Rightarrow> int list \<Rightarrow> (bool \<times> Level) option" where
  "assignMachine lvl machine slotsToUse =
     (case allFree (slotList lvl) slotsToUse of
        None \<Rightarrow> None
      | Some False \<Rightarrow> Some (False, lvl)
      | Some True \<Rightarrow>
          (case occupyAll (slotList lvl) (identifier machine) slotsToUse of
             None \<Rightarrow> None
           | Some slots \<Rightarrow> Some (True, lvl\<lparr>slotList := slots\<rparr>)))"

text \<open>The loop of \<open>removeMachine\<close>, with the flag \<open>removed\<close> as it stands so far.\<close>

fun removeLoop :: "string \<Rightarrow> Slot list \<Rightarrow> bool \<Rightarrow> bool \<times> Slot list" where
  "removeLoop machineId [] removed = (removed, [])"
| "removeLoop machineId (s # rest) removed =
     (if isOccupied s \<and> occupantId s = machineId then
        (let (r, rest') = removeLoop machineId rest True
         in (r, snd (vacateSlot s) # rest'))
      else
        (let (r, rest') = removeLoop machineId rest removed
         in (r, s # rest')))"

definition removeMachine :: "Level \<Rightarrow> string \<Rightarrow> bool \<times> Level" where
  "removeMachine lvl machineId =
     (let (removed, slots) = removeLoop machineId (slotList lvl) False
      in (removed, lvl\<lparr>slotList := slots\<rparr>))"

definition freeSlotsCount :: "Level \<Rightarrow> int" where
  "freeSlotsCount lvl =
     fold (\<lambda>s count. if \<not> isOccupied s then count + 1 else count) (slotList lvl) 0"

subsection \<open>Garage\<close>

record Garage =
  levels :: "Level list"
  machineLocations :: "string \<rightharpoonup> int \<times> int list"
  machineCatalog :: "string \<rightharpoonup> Machine"

definition newGarage :: "int \<Rightarrow> int \<Rightarrow> Garage" where
  "newGarage totalLevels slotsEach =
     \<lparr>levels = map (\<lambda>i. newLevel i slotsEach) [0..totalLevels - 1],
      machineLocations = Map.empty,
      machineCatalog = Map.empty\<rparr>"

text \<open>
  The loop over the levels in \<open>storeMachine\<close>. It returns the levels as the loop leaves
  them and, when a level took the machine, that level's index and the slot indices.
  \<open>assignMachine\<close> is only called when \<open>slotIndices\<close> is not empty.
\<close>

fun storeLoop :: "Level list \<Rightarrow> Machine \<Rightarrow> (Level list \<times> (int \<times> int list) option) option" where
  "storeLoop [] machine = Some ([], None)"
| "storeLoop (lvl # rest) machine =
     (let slotIndices = spotsAvailable lvl machine in
      if slotIndices \<noteq> [] then
        (case assignMachine lvl machine slotIndices of
           None \<Rightarrow> None
         | Some (True, lvl') \<Rightarrow> Some (lvl' # rest, Some (levelIndex lvl', slotIndices))
         | Some (False, lvl') \<Rightarrow>
             (case storeLoop rest machine of
                None \<Rightarrow> None
              | Some (rest', found) \<Rightarrow> Some (lvl' # rest', found)))
      else
        (case storeLoop rest machine of
           None \<Rightarrow> None
         | Some (rest', found) \<Rightarrow> Some (lvl # rest', found)))"

definition storeMachine :: "Garage \<Rightarrow> Machine \<Rightarrow> (bool \<times> Garage) option" where
  "storeMachine g machine =
     (if machineLocations g (identifier machine) \<noteq> None then Some (False, g)
      else
        (case storeLoop (levels g) machine of
           None \<Rightarrow> None
         | Some (lvls, Some loc) \<Rightarrow>
             Some (True, g\<lparr>levels := lvls,
                           machineLocations := (machineLocations g)(identifier machine \<mapsto> loc),
                           machineCatalog := (machineCatalog g)(identifier machine \<mapsto> machine)\<rparr>)
         | Some (lvls, None) \<Rightarrow> Some (False, g\<lparr>levels := lvls\<rparr>)))"

definition unparkMachine :: "Garage \<Rightarrow> string \<Rightarrow> (bool \<times> Garage) option" where
  "unparkMachine g machineId =
     (case machineLocations g machineId of
        None \<Rightarrow> Some (False, g)
      | Some (whichLevel, slots) \<Rightarrow>
          if \<not> (0 \<le> whichLevel \<and> nat whichLevel < length (levels g)) then None
          else
            (let (removed, lvl') = removeMachine (levels g ! nat whichLevel) machineId;
                 lvls = (levels g)[nat whichLevel := lvl']
             in if removed then
                  Some (True, g\<lparr>levels := lvls,
                                machineLocations := (machineLocations g)(machineId := None),
                                machineCatalog := (machineCatalog g)(machineId := None)\<rparr>)
                else Some (False, g\<lparr>levels := lvls\<rparr>)))"

subsection \<open>Sequences of operations\<close>

datatype Operation = Store Machine | Unpark string

definition step :: "Garage \<Rightarrow> Operation \<Rightarrow> Garage option" where
  "step g op =
     (case op of
        Store machine \<Rightarrow> map_option snd (storeMachine g machine)
      | Unpark machineId \<Rightarrow> map_option snd (unparkMachine g machineId))"

fun runOps :: "Garage \<Rightarrow> Operation list \<Rightarrow> Garage option" where
  "runOps g [] = Some g"
| "runOps g (op # ops) = (case step g op of None \<Rightarrow> None | Some g' \<Rightarrow> runOps g' ops)"

subsection \<open>Well-formed garages\<close>

text \<open>
  The test of \<open>removeMachine\<close> on one slot: it is taken, and taken by this machine.
\<close>

definition ownedBy :: "string \<Rightarrow> Slot \<Rightarrow> bool" where
  "ownedBy machineId s \<longleftrightarrow> isOccupied s \<and> occupantId s = machineId"

text \<open>
  Slot \<open>idx\<close> of level \<open>lv\<close> exists and is occupied by \<open>machineId\<close>; the two indices are the
  \<open>int\<close> values the location map stores.
\<close>

definition occupiedBy :: "Garage \<Rightarrow> int \<Rightarrow> int \<Rightarrow> string \<Rightarrow> bool" where
  "occupiedBy g lv idx machineId \<longleftrightarrow>
     0 \<le> lv \<and> nat lv < length (levels g) \<and>
     inRange (slotList (levels g ! nat lv)) idx \<and>
     ownedBy machineId (slotList (levels g ! nat lv) ! nat idx)"

text \<open>
  Slot \<open>i\<close> of a level exists and is free; slots \<open>i\<close> and \<open>i + 1\<close> of a level exist and are
  both free.
\<close>

definition freeIn :: "Level \<Rightarrow> nat \<Rightarrow> bool" where
  "freeIn lvl i \<longleftrightarrow> i < length (slotList lvl) \<and> \<not> isOccupied (slotList lvl ! i)"

definition freePairIn :: "Level \<Rightarrow> nat \<Rightarrow> bool" where
  "freePairIn lvl i \<longleftrightarrow> freeIn lvl i \<and> freeIn lvl (i + 1)"

text \<open>
  What the constructors establish and the slot operations keep: a slot knows its own
  position, and a free slot has the empty string as occupant.
\<close>

definition wfSlots :: "Slot list \<Rightarrow> bool" where
  "wfSlots slots \<longleftrightarrow>
     (\<forall>i<length slots. slotIndex (slots ! i) = int i \<and>
        (\<not> isOccupied (slots ! i) \<longrightarrow> occupantId (slots ! i) = []))"

definition wfLevels :: "Level list \<Rightarrow> bool" where
  "wfLevels lvls \<longleftrightarrow>
     (\<forall>l<length lvls. levelIndex (lvls ! l) = int l \<and> wfSlots (slotList (lvls ! l)))"

text \<open>
  A location record names a level of the garage and slots of it that the machine occupies,
  and the machine occupies as many slots of that level as the catalog says it needs.
\<close>

definition locationsValid :: "Garage \<Rightarrow> bool" where
  "locationsValid g \<longleftrightarrow>
     (\<forall>machineId lv idxs. machineLocations g machineId = Some (lv, idxs) \<longrightarrow>
        (\<exists>l<length (levels g). lv = int l \<and> idxs \<noteq> [] \<and>
           (\<forall>idx\<in>set idxs. \<exists>i<length (slotList (levels g ! l)).
              idx = int i \<and> ownedBy machineId (slotList (levels g ! l) ! i)) \<and>
           int (length (filter (ownedBy machineId) (slotList (levels g ! l)))) =
             slotsNeeded (the (machineCatalog g machineId))))"

text \<open>Every occupied slot is listed in the location record of its occupant.\<close>

definition occupantsRecorded :: "Garage \<Rightarrow> bool" where
  "occupantsRecorded g \<longleftrightarrow>
     (\<forall>l<length (levels g). \<forall>i<length (slotList (levels g ! l)).
        isOccupied (slotList (levels g ! l) ! i) \<longrightarrow>
        (\<exists>idxs. machineLocations g (occupantId (slotList (levels g ! l) ! i)) = Some (int l, idxs) \<and>
           int i \<in> set idxs))"

text \<open>The invariant of the class \<open>Garage\<close>.\<close>

definition garageInv :: "Garage \<Rightarrow> bool" where
  "garageInv g \<longleftrightarrow>
     wfLevels (levels g) \<and>
     dom (machineLocations g) = dom (machineCatalog g) \<and>
     finite (dom (machineCatalog g)) \<and>
     locationsValid g \<and>
     occupantsRecorded g"

text \<open>
  The two sides of the availability equation: the sum of \<open>freeSlotsCount\<close> over the levels,
  and the sum of \<open>slotsNeeded\<close> over the machines in the catalog.
\<close>

definition totalFree :: "Garage \<Rightarrow> int" where
  "totalFree g = sum_list (map freeSlotsCount (levels g))"

definition parkedSlots :: "Garage \<Rightarrow> int" where
  "parkedSlots g = (\<Sum>machineId\<in>dom (machineCatalog g). slotsNeeded (the (machineCatalog g machineId)))"

subsection \<open>Example states\<close>

definition carA1 :: Machine where
  "carA1 = \<lparr>identifier = ''A1'', kind = Car\<rparr>"

definition truckB1 :: Machine where
  "truckB1 = \<lparr>identifier = ''B1'', kind = Truck\<rparr>"

definition garageA1 :: Garage where
  "garageA1 =
     \<lparr>levels = [\<lparr>levelIndex = 0,
                 slotList = [(newSlot 0 0)\<lparr>occupantId := ''A1'', isOccupied := True\<rparr>, newSlot 0 1]\<rparr>],
      machineLocations = [''A1'' \<mapsto> (0, [0])],
      machineCatalog = [''A1'' \<mapsto> carA1]\<rparr>"

definition carC1 :: Machine where
  "carC1 = \<lparr>identifier = ''C1'', kind = Car\<rparr>"

definition garageB1 :: Garage where
  "garageB1 =
     \<lparr>levels = [\<lparr>levelIndex = 0,
                 slotList = [(newSlot 0 0)\<lparr>occupantId := ''B1'', isOccupied := True\<rparr>,
                             (newSlot 0 1)\<lparr>occupantId := ''B1'', isOccupied := True\<rparr>,
                             newSlot 0 2, newSlot 0 3]\<rparr>],
      machineLocations = [''B1'' \<mapsto> (0, [0, 1])],
      machineCatalog = [''B1'' \<mapsto> truckB1]\<rparr>"

definition garage22A1 :: Garage where
  "garage22A1 =
     \<lparr>levels = [\<lparr>levelIndex = 0,
                 slotList = [(newSlot 0 0)\<lparr>occupantId := ''A1'', isOccupied := True\<rparr>, newSlot 0 1]\<rparr>,
                \<lparr>levelIndex = 1, slotList = [newSlot 1 0, newSlot 1 1]\<rparr>],
      machineLocations = [''A1'' \<mapsto> (0, [0])],
      machineCatalog = [''A1'' \<mapsto> carA1]\<rparr>"

definition levelA1 :: Level where
  "levelA1 = \<lparr>levelIndex = 0,
     slotList = [(newSlot 0 0)\<lparr>occupantId := ''A1'', isOccupied := True\<rparr>, newSlot 0 1, newSlot 0 2]\<rparr>"

section \<open>Slots and levels\<close>

lemma occupySlot_free [simp]:
  "\<not> isOccupied s \<Longrightarrow> occupySlot s machineId = (True, s\<lparr>occupantId := machineId, isOccupied := True\<rparr>)"
  by (simp add: occupySlot_def)

lemma occupySlot_taken [simp]: "isOccupied s \<Longrightarrow> occupySlot s machineId = (False, s)"
  by (simp add: occupySlot_def)

lemma allFree_inRange:
  "\<forall>idx\<in>set idxs. inRange slots idx \<Longrightarrow>
   allFree slots idxs = Some (\<forall>idx\<in>set idxs. \<not> isOccupied (slots ! nat idx))"
  by (induction idxs) auto

lemma occupyAll_length: "occupyAll slots machineId idxs = Some slots' \<Longrightarrow> length slots' = length slots"
  by (induction idxs arbitrary: slots) (auto split: if_splits)

lemma occupyAll_nth:
  "\<forall>idx\<in>set idxs. inRange slots idx \<Longrightarrow>
   \<exists>slots'. occupyAll slots machineId idxs = Some slots' \<and> length slots' = length slots \<and>
     (\<forall>j<length slots. slots' ! j =
        (if int j \<in> set idxs then snd (occupySlot (slots ! j) machineId) else slots ! j))"
proof (induction idxs arbitrary: slots)
  case Nil
  then show ?case by simp
next
  case (Cons idx rest)
  let ?s1 = "slots[nat idx := snd (occupySlot (slots ! nat idx) machineId)]"
  from Cons.prems have r: "inRange slots idx" and rr: "\<forall>i\<in>set rest. inRange ?s1 i"
    by (auto simp: inRange_def)
  from Cons.IH [OF rr] obtain slots' where
    s': "occupyAll ?s1 machineId rest = Some slots'" "length slots' = length slots"
    and nth: "\<forall>j<length slots. slots' ! j =
        (if int j \<in> set rest then snd (occupySlot (?s1 ! j) machineId) else ?s1 ! j)"
    by auto
  have "slots' ! j = (if int j \<in> set (idx # rest) then snd (occupySlot (slots ! j) machineId) else slots ! j)"
    if "j < length slots" for j
  proof (cases "j = nat idx")
    case True
    with that nth r show ?thesis
      by (cases "isOccupied (slots ! nat idx)") (auto simp: inRange_def)
  next
    case False
    with r have "int j \<noteq> idx" by (auto simp: inRange_def)
    with False that nth show ?thesis by simp
  qed
  with s' r show ?case by simp
qed

lemma firstFree_empty: "firstFree slots = [] \<longleftrightarrow> (\<forall>s\<in>set slots. isOccupied s)"
  by (induction slots) auto

lemma firstFree_first:
  "firstFree slots \<noteq> [] \<Longrightarrow>
   \<exists>i<length slots. firstFree slots = [slotIndex (slots ! i)] \<and> \<not> isOccupied (slots ! i) \<and>
      (\<forall>j<i. isOccupied (slots ! j))"
proof (induction slots)
  case Nil
  then show ?case by simp
next
  case (Cons s rest)
  show ?case
  proof (cases "isOccupied s")
    case False
    then have "firstFree (s # rest) = [slotIndex ((s # rest) ! 0)] \<and> \<not> isOccupied ((s # rest) ! 0)"
      by simp
    then show ?thesis by blast
  next
    case True
    with Cons obtain i where i: "i < length rest" "firstFree rest = [slotIndex (rest ! i)]"
      "\<not> isOccupied (rest ! i)" "\<forall>j<i. isOccupied (rest ! j)"
      by auto
    have "\<forall>j<Suc i. isOccupied ((s # rest) ! j)"
      using True i(4) by (auto simp: nth_Cons split: nat.splits)
    with i True have "Suc i < length (s # rest) \<and> firstFree (s # rest) = [slotIndex ((s # rest) ! Suc i)] \<and>
       \<not> isOccupied ((s # rest) ! Suc i) \<and> (\<forall>j<Suc i. isOccupied ((s # rest) ! j))"
      by simp
    then show ?thesis by blast
  qed
qed

lemma firstPair_empty:
  "firstPair slots k = [] \<longleftrightarrow>
   (\<forall>i\<ge>k. i + 1 < length slots \<longrightarrow> isOccupied (slots ! i) \<or> isOccupied (slots ! (i + 1)))"
proof (induction slots k rule: firstPair.induct)
  case (1 slots i)
  show ?case
  proof (cases "i + 1 < length slots")
    case False
    then show ?thesis by (simp add: firstPair.simps [of slots i])
  next
    case inb: True
    show ?thesis
    proof (cases "\<not> isOccupied (slots ! i) \<and> \<not> isOccupied (slots ! (i + 1))")
      case True
      with inb show ?thesis by (auto simp: firstPair.simps [of slots i])
    next
      case False
      with inb have "firstPair slots i = firstPair slots (i + 1)"
        by (auto simp: firstPair.simps [of slots i])
      moreover have "(\<forall>j\<ge>i. j + 1 < length slots \<longrightarrow> isOccupied (slots ! j) \<or> isOccupied (slots ! (j + 1)))
         \<longleftrightarrow> (\<forall>j\<ge>i + 1. j + 1 < length slots \<longrightarrow> isOccupied (slots ! j) \<or> isOccupied (slots ! (j + 1)))"
        using False by (metis Suc_eq_plus1 Suc_leD Suc_leI le_neq_implies_less)
      ultimately show ?thesis using "1.IH" [OF inb False] by simp
    qed
  qed
qed

lemma firstPair_first:
  "firstPair slots k \<noteq> [] \<Longrightarrow>
   \<exists>i\<ge>k. i + 1 < length slots \<and>
      firstPair slots k = [slotIndex (slots ! i), slotIndex (slots ! (i + 1))] \<and>
      \<not> isOccupied (slots ! i) \<and> \<not> isOccupied (slots ! (i + 1)) \<and>
      (\<forall>j. k \<le> j \<and> j < i \<longrightarrow> isOccupied (slots ! j) \<or> isOccupied (slots ! (j + 1)))"
proof (induction slots k rule: firstPair.induct)
  case (1 slots i)
  from "1.prems" have inb: "i + 1 < length slots"
    by (simp add: firstPair.simps [of slots i] split: if_splits)
  show ?case
  proof (cases "\<not> isOccupied (slots ! i) \<and> \<not> isOccupied (slots ! (i + 1))")
    case True
    with inb have "firstPair slots i = [slotIndex (slots ! i), slotIndex (slots ! (i + 1))]"
      by (simp add: firstPair.simps [of slots i])
    with inb True show ?thesis by (intro exI [of _ i]) auto
  next
    case False
    with inb have eq: "firstPair slots i = firstPair slots (i + 1)"
      by (auto simp: firstPair.simps [of slots i])
    with "1.IH" [OF inb False] "1.prems" obtain m where m: "m \<ge> i + 1" "m + 1 < length slots"
      "firstPair slots (i + 1) = [slotIndex (slots ! m), slotIndex (slots ! (m + 1))]"
      "\<not> isOccupied (slots ! m)" "\<not> isOccupied (slots ! (m + 1))"
      "\<forall>j. i + 1 \<le> j \<and> j < m \<longrightarrow> isOccupied (slots ! j) \<or> isOccupied (slots ! (j + 1))"
      by auto
    have "\<forall>j. i \<le> j \<and> j < m \<longrightarrow> isOccupied (slots ! j) \<or> isOccupied (slots ! (j + 1))"
      using False m(6) by (metis Suc_eq_plus1 Suc_leI le_neq_implies_less)
    with m eq show ?thesis by (intro exI [of _ m]) auto
  qed
qed

subsection \<open>Finding and assigning slots\<close>

lemma assignMachine_fail_same:
  "assignMachine lvl machine idxs = Some (False, lvl') \<Longrightarrow> lvl' = lvl"
  by (auto simp: assignMachine_def split: option.splits bool.splits)

lemma assignMachine_free:
  assumes "\<forall>idx\<in>set idxs. inRange (slotList lvl) idx \<and> \<not> isOccupied (slotList lvl ! nat idx)"
  shows "\<exists>slots'. assignMachine lvl machine idxs = Some (True, lvl\<lparr>slotList := slots'\<rparr>) \<and>
           length slots' = length (slotList lvl) \<and>
           (\<forall>j<length (slotList lvl). slots' ! j =
              (if int j \<in> set idxs
               then (slotList lvl ! j)\<lparr>occupantId := identifier machine, isOccupied := True\<rparr>
               else slotList lvl ! j))"
proof -
  from assms have r: "\<forall>idx\<in>set idxs. inRange (slotList lvl) idx" by blast
  from assms allFree_inRange [OF r] have chk: "allFree (slotList lvl) idxs = Some True"
    by simp
  from occupyAll_nth [OF r, of "identifier machine"] obtain slots' where
    s': "occupyAll (slotList lvl) (identifier machine) idxs = Some slots'"
      "length slots' = length (slotList lvl)"
    and nth: "\<forall>j<length (slotList lvl). slots' ! j =
        (if int j \<in> set idxs then snd (occupySlot (slotList lvl ! j) (identifier machine))
         else slotList lvl ! j)"
    by blast
  from chk s' have a: "assignMachine lvl machine idxs = Some (True, lvl\<lparr>slotList := slots'\<rparr>)"
    by (simp add: assignMachine_def)
  have "slots' ! j = (if int j \<in> set idxs
               then (slotList lvl ! j)\<lparr>occupantId := identifier machine, isOccupied := True\<rparr>
               else slotList lvl ! j)" if "j < length (slotList lvl)" for j
  proof (cases "int j \<in> set idxs")
    case True
    with assms have "\<not> isOccupied (slotList lvl ! nat (int j))" by blast
    with True that nth show ?thesis by simp
  next
    case False
    with that nth show ?thesis by simp
  qed
  with a s'(2) show ?thesis by blast
qed

text \<open>What \<open>spotsAvailable\<close> returns on a level whose slots know their positions.\<close>

lemma spotsAvailable_one:
  assumes "wfSlots (slotList lvl)" and "slotsNeeded machine = 1"
  shows "(spotsAvailable lvl machine = [] \<and> (\<forall>i<length (slotList lvl). isOccupied (slotList lvl ! i))) \<or>
         (\<exists>i<length (slotList lvl). spotsAvailable lvl machine = [int i] \<and>
            \<not> isOccupied (slotList lvl ! i) \<and> (\<forall>j<i. isOccupied (slotList lvl ! j)))"
proof (cases "firstFree (slotList lvl) = []")
  case True
  with assms show ?thesis
    by (auto simp: spotsAvailable_def firstFree_empty)
next
  case False
  from firstFree_first [OF False] assms show ?thesis
    by (auto simp: spotsAvailable_def wfSlots_def)
qed

lemma spotsAvailable_two:
  assumes "wfSlots (slotList lvl)" and "slotsNeeded machine \<noteq> 1"
  shows "(spotsAvailable lvl machine = [] \<and>
            (\<forall>i. i + 1 < length (slotList lvl) \<longrightarrow>
               isOccupied (slotList lvl ! i) \<or> isOccupied (slotList lvl ! (i + 1)))) \<or>
         (\<exists>i. i + 1 < length (slotList lvl) \<and> spotsAvailable lvl machine = [int i, int i + 1] \<and>
            \<not> isOccupied (slotList lvl ! i) \<and> \<not> isOccupied (slotList lvl ! (i + 1)) \<and>
            (\<forall>j<i. isOccupied (slotList lvl ! j) \<or> isOccupied (slotList lvl ! (j + 1))))"
proof (cases "firstPair (slotList lvl) 0 = []")
  case True
  with assms show ?thesis
    by (auto simp: spotsAvailable_def firstPair_empty)
next
  case False
  from firstPair_first [OF False] obtain i where i: "i + 1 < length (slotList lvl)"
    "firstPair (slotList lvl) 0 = [slotIndex (slotList lvl ! i), slotIndex (slotList lvl ! (i + 1))]"
    "\<not> isOccupied (slotList lvl ! i)" "\<not> isOccupied (slotList lvl ! (i + 1))"
    "\<forall>j<i. isOccupied (slotList lvl ! j) \<or> isOccupied (slotList lvl ! (j + 1))"
    by auto
  from i(1) assms(1) have "slotIndex (slotList lvl ! i) = int i"
    "slotIndex (slotList lvl ! (i + 1)) = int i + 1"
    by (simp_all add: wfSlots_def)
  with i assms(2) have "i + 1 < length (slotList lvl) \<and> spotsAvailable lvl machine = [int i, int i + 1] \<and>
            \<not> isOccupied (slotList lvl ! i) \<and> \<not> isOccupied (slotList lvl ! (i + 1)) \<and>
            (\<forall>j<i. isOccupied (slotList lvl ! j) \<or> isOccupied (slotList lvl ! (j + 1)))"
    by (simp add: spotsAvailable_def)
  then show ?thesis by blast
qed

lemma slotsNeeded_cases: "slotsNeeded machine = 1 \<or> slotsNeeded machine = 2"
  by (simp add: slotsNeeded_def)

text \<open>The slots that \<open>spotsAvailable\<close> proposes are free slots of the level, all different,
  and as many as the machine needs.\<close>

lemma spotsAvailable_props:
  assumes wf: "wfSlots (slotList lvl)" and ne: "spotsAvailable lvl machine \<noteq> []"
  shows "(\<forall>idx\<in>set (spotsAvailable lvl machine).
            inRange (slotList lvl) idx \<and> \<not> isOccupied (slotList lvl ! nat idx)) \<and>
         distinct (spotsAvailable lvl machine) \<and>
         int (length (spotsAvailable lvl machine)) = slotsNeeded machine"
proof (cases "slotsNeeded machine = 1")
  case True
  from spotsAvailable_one [OF wf True] ne True show ?thesis
    by (auto simp: inRange_def)
next
  case False
  with slotsNeeded_cases [of machine] have two: "slotsNeeded machine = 2" by simp
  from spotsAvailable_two [OF wf False] ne two show ?thesis
    by (auto simp: inRange_def nat_add_distrib)
qed

lemma storeLoop_none_same: "storeLoop lvls machine = Some (lvls', None) \<Longrightarrow> lvls' = lvls"
proof (induction lvls arbitrary: lvls')
  case Nil
  then show ?case by simp
next
  case (Cons lvl rest)
  then show ?case
    by (auto simp: Let_def split: if_splits option.splits bool.splits prod.splits
        dest: assignMachine_fail_same)
qed

lemma storeLoop_wf:
  assumes "\<forall>lvl\<in>set lvls. wfSlots (slotList lvl)"
  shows "(storeLoop lvls machine = Some (lvls, None) \<and>
            (\<forall>l<length lvls. spotsAvailable (lvls ! l) machine = [])) \<or>
         (\<exists>k<length lvls. \<exists>lvl'.
            (\<forall>l<k. spotsAvailable (lvls ! l) machine = []) \<and>
            spotsAvailable (lvls ! k) machine \<noteq> [] \<and>
            assignMachine (lvls ! k) machine (spotsAvailable (lvls ! k) machine) = Some (True, lvl') \<and>
            storeLoop lvls machine =
              Some (lvls[k := lvl'], Some (levelIndex lvl', spotsAvailable (lvls ! k) machine)))"
  using assms
proof (induction lvls)
  case Nil
  then show ?case by simp
next
  case (Cons lvl rest)
  show ?case
  proof (cases "spotsAvailable lvl machine = []")
    case True
    from Cons have "(storeLoop rest machine = Some (rest, None) \<and>
            (\<forall>l<length rest. spotsAvailable (rest ! l) machine = [])) \<or>
         (\<exists>k<length rest. \<exists>lvl'.
            (\<forall>l<k. spotsAvailable (rest ! l) machine = []) \<and>
            spotsAvailable (rest ! k) machine \<noteq> [] \<and>
            assignMachine (rest ! k) machine (spotsAvailable (rest ! k) machine) = Some (True, lvl') \<and>
            storeLoop rest machine =
              Some (rest[k := lvl'], Some (levelIndex lvl', spotsAvailable (rest ! k) machine)))"
      by simp
    then show ?thesis
    proof
      assume "storeLoop rest machine = Some (rest, None) \<and>
            (\<forall>l<length rest. spotsAvailable (rest ! l) machine = [])"
      with True have "storeLoop (lvl # rest) machine = Some (lvl # rest, None) \<and>
            (\<forall>l<length (lvl # rest). spotsAvailable ((lvl # rest) ! l) machine = [])"
        by (auto simp: nth_Cons split: nat.splits)
      then show ?thesis by blast
    next
      assume "\<exists>k<length rest. \<exists>lvl'.
            (\<forall>l<k. spotsAvailable (rest ! l) machine = []) \<and>
            spotsAvailable (rest ! k) machine \<noteq> [] \<and>
            assignMachine (rest ! k) machine (spotsAvailable (rest ! k) machine) = Some (True, lvl') \<and>
            storeLoop rest machine =
              Some (rest[k := lvl'], Some (levelIndex lvl', spotsAvailable (rest ! k) machine))"
      then obtain k lvl' where k: "k < length rest"
        "\<forall>l<k. spotsAvailable (rest ! l) machine = []"
        "spotsAvailable (rest ! k) machine \<noteq> []"
        "assignMachine (rest ! k) machine (spotsAvailable (rest ! k) machine) = Some (True, lvl')"
        "storeLoop rest machine =
              Some (rest[k := lvl'], Some (levelIndex lvl', spotsAvailable (rest ! k) machine))"
        by blast
      from True k(2) have "\<forall>l<Suc k. spotsAvailable ((lvl # rest) ! l) machine = []"
        by (auto simp: nth_Cons split: nat.splits)
      with True k have "Suc k < length (lvl # rest) \<and>
            (\<forall>l<Suc k. spotsAvailable ((lvl # rest) ! l) machine = []) \<and>
            spotsAvailable ((lvl # rest) ! Suc k) machine \<noteq> [] \<and>
            assignMachine ((lvl # rest) ! Suc k) machine (spotsAvailable ((lvl # rest) ! Suc k) machine)
              = Some (True, lvl') \<and>
            storeLoop (lvl # rest) machine =
              Some ((lvl # rest)[Suc k := lvl'],
                    Some (levelIndex lvl', spotsAvailable ((lvl # rest) ! Suc k) machine))"
        by simp
      then show ?thesis by blast
    qed
  next
    case False
    from Cons.prems have wf: "wfSlots (slotList lvl)" by simp
    from spotsAvailable_props [OF wf False]
    have "\<forall>idx\<in>set (spotsAvailable lvl machine).
            inRange (slotList lvl) idx \<and> \<not> isOccupied (slotList lvl ! nat idx)"
      by blast
    from assignMachine_free [OF this] obtain lvl' where
      a: "assignMachine lvl machine (spotsAvailable lvl machine) = Some (True, lvl')"
      by blast
    with False have "0 < length (lvl # rest) \<and>
            (\<forall>l<0. spotsAvailable ((lvl # rest) ! l) machine = []) \<and>
            spotsAvailable ((lvl # rest) ! 0) machine \<noteq> [] \<and>
            assignMachine ((lvl # rest) ! 0) machine (spotsAvailable ((lvl # rest) ! 0) machine)
              = Some (True, lvl') \<and>
            storeLoop (lvl # rest) machine =
              Some ((lvl # rest)[0 := lvl'],
                    Some (levelIndex lvl', spotsAvailable ((lvl # rest) ! 0) machine))"
      by simp
    then show ?thesis by blast
  qed
qed

lemma removeLoop_eq:
  "removeLoop machineId slots removed =
     (removed \<or> (\<exists>s\<in>set slots. ownedBy machineId s),
      map (\<lambda>s. if ownedBy machineId s then s\<lparr>occupantId := [], isOccupied := False\<rparr> else s) slots)"
  by (induction slots arbitrary: removed) (auto simp: ownedBy_def vacateSlot_def)

lemma removeMachine_eq:
  "removeMachine lvl machineId =
     (\<exists>s\<in>set (slotList lvl). ownedBy machineId s,
      lvl\<lparr>slotList :=
        map (\<lambda>s. if ownedBy machineId s then s\<lparr>occupantId := [], isOccupied := False\<rparr> else s)
          (slotList lvl)\<rparr>)"
  by (simp add: removeMachine_def removeLoop_eq)

lemma fold_count_free:
  "fold (\<lambda>s count. if \<not> isOccupied s then count + 1 else count) slots (c::int) =
     c + int (length (filter (\<lambda>s. \<not> isOccupied s) slots))"
  by (induction slots arbitrary: c) auto

lemma freeSlotsCount_eq:
  "freeSlotsCount lvl = int (length (filter (\<lambda>s. \<not> isOccupied s) (slotList lvl)))"
  by (simp add: freeSlotsCount_def fold_count_free)

lemma wfLevels_set: "wfLevels lvls \<Longrightarrow> \<forall>lvl\<in>set lvls. wfSlots (slotList lvl)"
  by (auto simp: wfLevels_def in_set_conv_nth)

text \<open>The two outcomes of \<open>storeMachine\<close> for a machine that is not parked, on well-formed
  levels: no level has room and nothing changes, or the first level with room takes it.\<close>

lemma storeMachine_cases [consumes 2, case_names Full Parked]:
  assumes wf: "wfLevels (levels g)" and new: "machineLocations g (identifier machine) = None"
  obtains
    (Full) "storeMachine g machine = Some (False, g)"
      "\<forall>l<length (levels g). spotsAvailable (levels g ! l) machine = []"
  | (Parked) k slots' where "k < length (levels g)"
      "\<forall>l<k. spotsAvailable (levels g ! l) machine = []"
      "spotsAvailable (levels g ! k) machine \<noteq> []"
      "length slots' = length (slotList (levels g ! k))"
      "\<forall>j<length (slotList (levels g ! k)). slots' ! j =
         (if int j \<in> set (spotsAvailable (levels g ! k) machine)
          then (slotList (levels g ! k) ! j)\<lparr>occupantId := identifier machine, isOccupied := True\<rparr>
          else slotList (levels g ! k) ! j)"
      "storeMachine g machine =
         Some (True, g\<lparr>levels := (levels g)[k := (levels g ! k)\<lparr>slotList := slots'\<rparr>],
           machineLocations :=
             (machineLocations g)(identifier machine \<mapsto> (int k, spotsAvailable (levels g ! k) machine)),
           machineCatalog := (machineCatalog g)(identifier machine \<mapsto> machine)\<rparr>)"
proof -
  from storeLoop_wf [OF wfLevels_set [OF wf], of machine]
  consider (a) "storeLoop (levels g) machine = Some (levels g, None)"
      "\<forall>l<length (levels g). spotsAvailable (levels g ! l) machine = []"
    | (b) k lvl' where "k < length (levels g)"
      "\<forall>l<k. spotsAvailable (levels g ! l) machine = []"
      "spotsAvailable (levels g ! k) machine \<noteq> []"
      "assignMachine (levels g ! k) machine (spotsAvailable (levels g ! k) machine) = Some (True, lvl')"
      "storeLoop (levels g) machine =
         Some ((levels g)[k := lvl'], Some (levelIndex lvl', spotsAvailable (levels g ! k) machine))"
    by blast
  then show thesis
  proof cases
    case a
    with new have "storeMachine g machine = Some (False, g)"
      by (simp add: storeMachine_def)
    then show ?thesis using a(2) by (rule Full)
  next
    case b
    let ?lvl = "levels g ! k" and ?idxs = "spotsAvailable (levels g ! k) machine"
    from wf b(1) have wfk: "wfSlots (slotList ?lvl)" and lk: "levelIndex ?lvl = int k"
      by (simp_all add: wfLevels_def)
    from spotsAvailable_props [OF wfk b(3)]
    have "\<forall>idx\<in>set ?idxs. inRange (slotList ?lvl) idx \<and> \<not> isOccupied (slotList ?lvl ! nat idx)"
      by blast
    from assignMachine_free [OF this, of machine] obtain slots' where
      s': "assignMachine ?lvl machine ?idxs = Some (True, ?lvl\<lparr>slotList := slots'\<rparr>)"
        "length slots' = length (slotList ?lvl)"
        "\<forall>j<length (slotList ?lvl). slots' ! j =
           (if int j \<in> set ?idxs
            then (slotList ?lvl ! j)\<lparr>occupantId := identifier machine, isOccupied := True\<rparr>
            else slotList ?lvl ! j)"
      by blast
    from s'(1) b(4) have "lvl' = ?lvl\<lparr>slotList := slots'\<rparr>" by simp
    with b(5) new lk have "storeMachine g machine =
         Some (True, g\<lparr>levels := (levels g)[k := ?lvl\<lparr>slotList := slots'\<rparr>],
           machineLocations := (machineLocations g)(identifier machine \<mapsto> (int k, ?idxs)),
           machineCatalog := (machineCatalog g)(identifier machine \<mapsto> machine)\<rparr>)"
      by (simp add: storeMachine_def)
    with b(1,2,3) s'(2,3) show ?thesis by (intro Parked [of k slots'])
  qed
qed

subsection \<open>Counting slots\<close>

lemma filter_length_cong:
  assumes "length xs = length ys" and "\<forall>j<length xs. P (xs ! j) = Q (ys ! j)"
  shows "length (filter P xs) = length (filter Q ys)"
proof -
  from assms have "{i. i < length xs \<and> P (xs ! i)} = {i. i < length ys \<and> Q (ys ! i)}"
    by auto
  then show ?thesis by (simp add: length_filter_conv_card)
qed

lemma card_positions:
  assumes "\<forall>idx\<in>set idxs. 0 \<le> idx \<and> nat idx < n" and "distinct idxs"
  shows "card {j. j < n \<and> int j \<in> set idxs} = length idxs"
proof -
  from assms(1) have "{j. j < n \<and> int j \<in> set idxs} = nat ` set idxs"
    by (force simp: image_iff)
  moreover from assms(1) have "inj_on nat (set idxs)"
    by (intro inj_onI) (metis nat_0_le)
  ultimately show ?thesis using assms(2) by (simp add: card_image distinct_card)
qed

text \<open>Occupying free slots: the machine owns exactly the listed slots afterwards.\<close>

lemma owned_after_occupy:
  assumes len: "length slots' = length slots"
    and nth: "\<forall>j<length slots. slots' ! j =
         (if int j \<in> set idxs then (slots ! j)\<lparr>occupantId := machineId, isOccupied := True\<rparr>
          else slots ! j)"
    and rng: "\<forall>idx\<in>set idxs. inRange slots idx \<and> \<not> isOccupied (slots ! nat idx)"
    and dist: "distinct idxs"
    and none: "\<forall>j<length slots. \<not> ownedBy machineId (slots ! j)"
  shows "length (filter (ownedBy machineId) slots') = length idxs"
proof -
  have "ownedBy machineId (slots' ! j) \<longleftrightarrow> int j \<in> set idxs" if "j < length slots" for j
    using that nth none by (cases "int j \<in> set idxs") (simp_all add: ownedBy_def)
  with len have "{j. j < length slots' \<and> ownedBy machineId (slots' ! j)} =
      {j. j < length slots \<and> int j \<in> set idxs}"
    by auto
  moreover from rng have "\<forall>idx\<in>set idxs. 0 \<le> idx \<and> nat idx < length slots"
    by (simp add: inRange_def)
  ultimately show ?thesis
    using card_positions [OF _ dist, of "length slots"] by (simp add: length_filter_conv_card)
qed

lemma free_after_occupy:
  assumes len: "length slots' = length slots"
    and nth: "\<forall>j<length slots. slots' ! j =
         (if int j \<in> set idxs then (slots ! j)\<lparr>occupantId := machineId, isOccupied := True\<rparr>
          else slots ! j)"
    and rng: "\<forall>idx\<in>set idxs. inRange slots idx \<and> \<not> isOccupied (slots ! nat idx)"
    and dist: "distinct idxs"
  shows "int (length (filter (\<lambda>s. \<not> isOccupied s) slots')) =
         int (length (filter (\<lambda>s. \<not> isOccupied s) slots)) - int (length idxs)"
proof -
  let ?F = "{j. j < length slots \<and> \<not> isOccupied (slots ! j)}"
  let ?I = "{j. j < length slots \<and> int j \<in> set idxs}"
  have "\<not> isOccupied (slots' ! j) \<longleftrightarrow> \<not> isOccupied (slots ! j) \<and> int j \<notin> set idxs"
    if "j < length slots" for j
    using that nth by (cases "int j \<in> set idxs") simp_all
  with len have eq: "{j. j < length slots' \<and> \<not> isOccupied (slots' ! j)} = ?F - ?I"
    by auto
  from rng have sub: "?I \<subseteq> ?F" by auto
  from rng have "\<forall>idx\<in>set idxs. 0 \<le> idx \<and> nat idx < length slots"
    by (simp add: inRange_def)
  from card_positions [OF this dist] have cI: "card ?I = length idxs" .
  have "finite ?F" by simp
  with sub have "card (?F - ?I) = card ?F - card ?I" and "card ?I \<le> card ?F"
    by (simp_all add: card_Diff_subset finite_subset card_mono)
  with eq cI show ?thesis by (simp add: length_filter_conv_card)
qed

lemma free_after_vacate:
  "length (filter (\<lambda>s. \<not> isOccupied s)
      (map (\<lambda>s. if ownedBy machineId s then s\<lparr>occupantId := [], isOccupied := False\<rparr> else s) slots)) =
   length (filter (\<lambda>s. \<not> isOccupied s) slots) + length (filter (ownedBy machineId) slots)"
  by (induction slots) (auto simp: ownedBy_def)

lemma sum_list_map_update:
  fixes f :: "'a \<Rightarrow> int"
  shows "k < length xs \<Longrightarrow> sum_list (map f (xs[k := x])) = sum_list (map f xs) - f (xs ! k) + f x"
  by (induction xs arbitrary: k) (auto simp: nth_Cons split: nat.splits)

section \<open>The invariant is kept\<close>

lemma garageInv_newGarage: "garageInv (newGarage totalLevels slotsEach)"
  by (simp add: garageInv_def newGarage_def wfLevels_def newLevel_def wfSlots_def newSlot_def
      locationsValid_def occupantsRecorded_def)

lemma garageInv_park:
  assumes inv: "garageInv g"
    and new: "machineLocations g (identifier machine) = None"
    and k: "k < length (levels g)"
    and ne: "idxs \<noteq> []"
    and rng: "\<forall>idx\<in>set idxs. inRange (slotList (levels g ! k)) idx \<and>
                \<not> isOccupied (slotList (levels g ! k) ! nat idx)"
    and dist: "distinct idxs"
    and cnt: "int (length idxs) = slotsNeeded machine"
    and len: "length slots' = length (slotList (levels g ! k))"
    and nth: "\<forall>j<length (slotList (levels g ! k)). slots' ! j =
         (if int j \<in> set idxs
          then (slotList (levels g ! k) ! j)\<lparr>occupantId := identifier machine, isOccupied := True\<rparr>
          else slotList (levels g ! k) ! j)"
    and g': "g' = g\<lparr>levels := (levels g)[k := (levels g ! k)\<lparr>slotList := slots'\<rparr>],
           machineLocations := (machineLocations g)(identifier machine \<mapsto> (int k, idxs)),
           machineCatalog := (machineCatalog g)(identifier machine \<mapsto> machine)\<rparr>"
  shows "garageInv g'"
proof -
  let ?slots = "slotList (levels g ! k)" and ?mid = "identifier machine"
  from inv have wf: "wfLevels (levels g)"
    and dm: "dom (machineLocations g) = dom (machineCatalog g)"
    and fin: "finite (dom (machineCatalog g))"
    and lv: "locationsValid g" and orc: "occupantsRecorded g"
    by (simp_all add: garageInv_def)
  have lenl: "length (levels g') = length (levels g)" by (simp add: g')
  have sl: "slotList (levels g' ! l) = (if l = k then slots' else slotList (levels g ! l))"
    and li: "levelIndex (levels g' ! l) = levelIndex (levels g ! l)"
    if "l < length (levels g)" for l
    using that k by (auto simp: g' nth_list_update)
  have none: "\<not> ownedBy ?mid (slotList (levels g ! l) ! j)"
    if "l < length (levels g)" "j < length (slotList (levels g ! l))" for l j
  proof
    assume "ownedBy ?mid (slotList (levels g ! l) ! j)"
    then have o: "isOccupied (slotList (levels g ! l) ! j)"
      and m: "occupantId (slotList (levels g ! l) ! j) = ?mid"
      by (simp_all add: ownedBy_def)
    from orc that o obtain idxs' where
      "machineLocations g (occupantId (slotList (levels g ! l) ! j)) = Some (int l, idxs')"
      unfolding occupantsRecorded_def by blast
    with m new show False by simp
  qed
  have taken: "slots' ! j = ?slots ! j" if "j < length ?slots" "isOccupied (?slots ! j)" for j
  proof -
    from rng that(2) have "int j \<notin> set idxs" by fastforce
    with nth that(1) show ?thesis by simp
  qed
  have fresh: "slots' ! j = (?slots ! j)\<lparr>occupantId := ?mid, isOccupied := True\<rparr>"
    if "j < length ?slots" "int j \<in> set idxs" for j
    using that nth by simp
  have other: "slots' ! j = ?slots ! j" if "j < length ?slots" "int j \<notin> set idxs" for j
    using that nth by simp
  \<comment> \<open>the levels stay well-formed\<close>
  have wf': "wfLevels (levels g')"
    unfolding wfLevels_def
  proof (intro allI impI conjI)
    fix l assume l: "l < length (levels g')"
    with lenl wf show "levelIndex (levels g' ! l) = int l"
      by (simp add: li wfLevels_def)
    from l lenl wf have w: "wfSlots (slotList (levels g ! l))" by (simp add: wfLevels_def)
    show "wfSlots (slotList (levels g' ! l))"
    proof (cases "l = k")
      case False
      with l lenl w show ?thesis by (simp add: sl)
    next
      case True
      have "slotIndex (slots' ! j) = int j \<and> (\<not> isOccupied (slots' ! j) \<longrightarrow> occupantId (slots' ! j) = [])"
        if "j < length ?slots" for j
        using that w True nth by (cases "int j \<in> set idxs") (simp_all add: wfSlots_def)
      with True k len show ?thesis by (simp add: sl wfSlots_def)
    qed
  qed
  have dm': "dom (machineLocations g') = dom (machineCatalog g')"
    and fin': "finite (dom (machineCatalog g'))"
    using dm fin by (simp_all add: g')
  \<comment> \<open>the location records\<close>
  have lv': "locationsValid g'"
    unfolding locationsValid_def
  proof (intro allI impI)
    fix machineId lv' idxs'
    assume loc: "machineLocations g' machineId = Some (lv', idxs')"
    show "\<exists>l<length (levels g'). lv' = int l \<and> idxs' \<noteq> [] \<and>
           (\<forall>idx\<in>set idxs'. \<exists>i<length (slotList (levels g' ! l)).
              idx = int i \<and> ownedBy machineId (slotList (levels g' ! l) ! i)) \<and>
           int (length (filter (ownedBy machineId) (slotList (levels g' ! l)))) =
             slotsNeeded (the (machineCatalog g' machineId))"
    proof (cases "machineId = ?mid")
      case True
      with loc have eq: "lv' = int k" "idxs' = idxs" by (simp_all add: g')
      have own: "\<exists>i<length slots'. idx = int i \<and> ownedBy ?mid (slots' ! i)" if "idx \<in> set idxs" for idx
      proof -
        from that rng have r: "0 \<le> idx" "nat idx < length ?slots" by (auto simp: inRange_def)
        with that have "int (nat idx) \<in> set idxs" by simp
        from fresh [OF r(2) this] have "ownedBy ?mid (slots' ! nat idx)" by (simp add: ownedBy_def)
        with r len show ?thesis by (intro exI [of _ "nat idx"]) simp
      qed
      from none [OF k] have "\<forall>j<length ?slots. \<not> ownedBy ?mid (?slots ! j)" by blast
      from owned_after_occupy [OF len nth rng dist this]
      have "int (length (filter (ownedBy ?mid) slots')) = slotsNeeded machine"
        using cnt by simp
      with own k ne eq True lenl show ?thesis
        by (intro exI [of _ k]) (simp add: sl, simp add: g')
    next
      case False
      with loc have old: "machineLocations g machineId = Some (lv', idxs')" by (simp add: g')
      with lv obtain l where l: "l < length (levels g)" "lv' = int l" "idxs' \<noteq> []"
        "\<forall>idx\<in>set idxs'. \<exists>i<length (slotList (levels g ! l)).
              idx = int i \<and> ownedBy machineId (slotList (levels g ! l) ! i)"
        "int (length (filter (ownedBy machineId) (slotList (levels g ! l)))) =
             slotsNeeded (the (machineCatalog g machineId))"
        unfolding locationsValid_def by blast
      have same: "ownedBy machineId (slots' ! j) = ownedBy machineId (?slots ! j)"
        if "j < length ?slots" for j
        using that nth rng False by (cases "int j \<in> set idxs") (auto simp: ownedBy_def)
      have a: "\<exists>i<length (slotList (levels g' ! l)). idx = int i \<and>
                 ownedBy machineId (slotList (levels g' ! l) ! i)" if "idx \<in> set idxs'" for idx
      proof -
        from l(4) that obtain i where i: "i < length (slotList (levels g ! l))" "idx = int i"
          "ownedBy machineId (slotList (levels g ! l) ! i)" by blast
        with l(1) len same show ?thesis
          by (intro exI [of _ i]) (auto simp: sl)
      qed
      have b: "length (filter (ownedBy machineId) (slotList (levels g' ! l))) =
            length (filter (ownedBy machineId) (slotList (levels g ! l)))"
      proof (cases "l = k")
        case True
        from filter_length_cong [of slots' ?slots "ownedBy machineId" "ownedBy machineId"] len same
        have "length (filter (ownedBy machineId) slots') = length (filter (ownedBy machineId) ?slots)"
          by simp
        with True l(1) show ?thesis by (simp add: sl)
      next
        case False
        with l(1) show ?thesis by (simp add: sl)
      qed
      have c: "the (machineCatalog g' machineId) = the (machineCatalog g machineId)"
        using False by (simp add: g')
      from l(1,2,3,5) a b c lenl show ?thesis
        by (intro exI [of _ l]) simp
    qed
  qed
  \<comment> \<open>the occupied slots\<close>
  have orc': "occupantsRecorded g'"
    unfolding occupantsRecorded_def
  proof (intro allI impI)
    fix l i
    assume l: "l < length (levels g')" and i: "i < length (slotList (levels g' ! l))"
      and occ: "isOccupied (slotList (levels g' ! l) ! i)"
    from l lenl have l0: "l < length (levels g)" by simp
    from i l0 len have i0: "i < length (slotList (levels g ! l))" by (simp add: sl split: if_splits)
    show "\<exists>idxs'. machineLocations g' (occupantId (slotList (levels g' ! l) ! i)) = Some (int l, idxs') \<and>
           int i \<in> set idxs'"
    proof (cases "l = k \<and> int i \<in> set idxs")
      case True
      with i0 fresh have "occupantId (slots' ! i) = ?mid" by simp
      with True l0 show ?thesis by (simp add: sl g')
    next
      case False
      with l0 i0 other have same: "slotList (levels g' ! l) ! i = slotList (levels g ! l) ! i"
        by (auto simp: sl)
      with occ have o: "isOccupied (slotList (levels g ! l) ! i)" by simp
      with orc l0 i0 obtain idxs' where
        r: "machineLocations g (occupantId (slotList (levels g ! l) ! i)) = Some (int l, idxs')"
          "int i \<in> set idxs'"
        unfolding occupantsRecorded_def by blast
      with new have "occupantId (slotList (levels g ! l) ! i) \<noteq> ?mid" by auto
      with r same show ?thesis by (simp add: g')
    qed
  qed
  from wf' dm' fin' lv' orc' show ?thesis by (simp add: garageInv_def)
qed

lemma unparkMachine_parked:
  assumes inv: "garageInv g" and loc: "machineLocations g machineId = Some (lv, idxs)"
  obtains l where "l < length (levels g)" "lv = int l"
    "unparkMachine g machineId =
       Some (True, g\<lparr>levels := (levels g)[l := (levels g ! l)\<lparr>slotList :=
           map (\<lambda>s. if ownedBy machineId s then s\<lparr>occupantId := [], isOccupied := False\<rparr> else s)
             (slotList (levels g ! l))\<rparr>],
         machineLocations := (machineLocations g)(machineId := None),
         machineCatalog := (machineCatalog g)(machineId := None)\<rparr>)"
proof -
  from inv have "locationsValid g" by (simp add: garageInv_def)
  with loc obtain l where l: "l < length (levels g)" "lv = int l" "idxs \<noteq> []"
    "\<forall>idx\<in>set idxs. \<exists>i<length (slotList (levels g ! l)).
        idx = int i \<and> ownedBy machineId (slotList (levels g ! l) ! i)"
    unfolding locationsValid_def by blast
  from l(3) obtain idx where "idx \<in> set idxs" by (cases idxs) auto
  with l(4) obtain i where "i < length (slotList (levels g ! l))"
    "ownedBy machineId (slotList (levels g ! l) ! i)" by blast
  then have "\<exists>s\<in>set (slotList (levels g ! l)). ownedBy machineId s"
    using nth_mem by blast
  with loc l(1,2) have "unparkMachine g machineId =
       Some (True, g\<lparr>levels := (levels g)[l := (levels g ! l)\<lparr>slotList :=
           map (\<lambda>s. if ownedBy machineId s then s\<lparr>occupantId := [], isOccupied := False\<rparr> else s)
             (slotList (levels g ! l))\<rparr>],
         machineLocations := (machineLocations g)(machineId := None),
         machineCatalog := (machineCatalog g)(machineId := None)\<rparr>)"
    by (simp add: unparkMachine_def removeMachine_eq)
  with l(1,2) show thesis by (rule that)
qed

lemma garageInv_unpark:
  assumes inv: "garageInv g"
    and loc: "machineLocations g machineId = Some (int k, idxs)"
    and k: "k < length (levels g)"
    and g': "g' = g\<lparr>levels := (levels g)[k := (levels g ! k)\<lparr>slotList :=
           map (\<lambda>s. if ownedBy machineId s then s\<lparr>occupantId := [], isOccupied := False\<rparr> else s)
             (slotList (levels g ! k))\<rparr>],
         machineLocations := (machineLocations g)(machineId := None),
         machineCatalog := (machineCatalog g)(machineId := None)\<rparr>"
  shows "garageInv g'"
proof -
  let ?f = "\<lambda>s. if ownedBy machineId s then s\<lparr>occupantId := [], isOccupied := False\<rparr> else s"
  let ?slots = "slotList (levels g ! k)"
  from inv have wf: "wfLevels (levels g)"
    and dm: "dom (machineLocations g) = dom (machineCatalog g)"
    and fin: "finite (dom (machineCatalog g))"
    and lv: "locationsValid g" and orc: "occupantsRecorded g"
    by (simp_all add: garageInv_def)
  have lenl: "length (levels g') = length (levels g)" by (simp add: g')
  have sl: "slotList (levels g' ! l) = (if l = k then map ?f ?slots else slotList (levels g ! l))"
    and li: "levelIndex (levels g' ! l) = levelIndex (levels g ! l)"
    if "l < length (levels g)" for l
    using that k by (auto simp: g' nth_list_update)
  have lens: "length (slotList (levels g' ! l)) = length (slotList (levels g ! l))"
    if "l < length (levels g)" for l
    using that by (simp add: sl)
  have kept: "slotList (levels g' ! l) ! i = slotList (levels g ! l) ! i"
    if "l < length (levels g)" "i < length (slotList (levels g ! l))"
      "\<not> (l = k \<and> ownedBy machineId (slotList (levels g ! l) ! i))" for l i
  proof (cases "l = k")
    case False
    with that(1) show ?thesis by (simp add: sl)
  next
    case True
    with that have "i < length ?slots" "\<not> ownedBy machineId (?slots ! i)" by simp_all
    with k have "slotList (levels g' ! k) ! i = ?slots ! i" by (simp add: sl)
    then show ?thesis unfolding True .
  qed
  have vacated: "slotList (levels g' ! k) ! i = (?slots ! i)\<lparr>occupantId := [], isOccupied := False\<rparr>"
    if "i < length ?slots" "ownedBy machineId (?slots ! i)" for i
    using that k by (simp add: sl)
  have wf': "wfLevels (levels g')"
    unfolding wfLevels_def
  proof (intro allI impI conjI)
    fix l assume l: "l < length (levels g')"
    with lenl wf show "levelIndex (levels g' ! l) = int l"
      by (simp add: li wfLevels_def)
    from l lenl wf have w: "wfSlots (slotList (levels g ! l))" by (simp add: wfLevels_def)
    have "slotIndex (slotList (levels g' ! l) ! i) = int i \<and>
        (\<not> isOccupied (slotList (levels g' ! l) ! i) \<longrightarrow> occupantId (slotList (levels g' ! l) ! i) = [])"
      if i: "i < length (slotList (levels g ! l))" for i
    proof (cases "l = k \<and> ownedBy machineId (slotList (levels g ! l) ! i)")
      case True
      with i have "i < length ?slots" "ownedBy machineId (?slots ! i)" by auto
      from vacated [OF this] w True i show ?thesis by (simp add: wfSlots_def)
    next
      case False
      from l lenl have "l < length (levels g)" by simp
      from kept [OF this i False] w i show ?thesis by (simp add: wfSlots_def)
    qed
    with l lenl show "wfSlots (slotList (levels g' ! l))"
      by (simp add: lens wfSlots_def)
  qed
  have dm': "dom (machineLocations g') = dom (machineCatalog g')"
    and fin': "finite (dom (machineCatalog g'))"
    using dm fin by (simp_all add: g')
  have lv': "locationsValid g'"
    unfolding locationsValid_def
  proof (intro allI impI)
    fix mid lv' idxs'
    assume loc': "machineLocations g' mid = Some (lv', idxs')"
    then have ne: "mid \<noteq> machineId" by (auto simp: g')
    with loc' have old: "machineLocations g mid = Some (lv', idxs')" by (simp add: g')
    with lv obtain l where l: "l < length (levels g)" "lv' = int l" "idxs' \<noteq> []"
        "\<forall>idx\<in>set idxs'. \<exists>i<length (slotList (levels g ! l)).
              idx = int i \<and> ownedBy mid (slotList (levels g ! l) ! i)"
        "int (length (filter (ownedBy mid) (slotList (levels g ! l)))) =
             slotsNeeded (the (machineCatalog g mid))"
      unfolding locationsValid_def by blast
    have same: "ownedBy mid (?f s) = ownedBy mid s" for s
      using ne by (auto simp: ownedBy_def)
    have a: "\<exists>i<length (slotList (levels g' ! l)). idx = int i \<and>
                 ownedBy mid (slotList (levels g' ! l) ! i)" if "idx \<in> set idxs'" for idx
    proof -
      from l(4) that obtain i where i: "i < length (slotList (levels g ! l))" "idx = int i"
          "ownedBy mid (slotList (levels g ! l) ! i)" by blast
      from i(3) ne have "\<not> (l = k \<and> ownedBy machineId (slotList (levels g ! l) ! i))"
        by (auto simp: ownedBy_def)
      from kept [OF l(1) i(1) this] have "slotList (levels g' ! l) ! i = slotList (levels g ! l) ! i" .
      with i(3) have "ownedBy mid (slotList (levels g' ! l) ! i)" by simp
      with l(1) i(1,2) show ?thesis
        by (intro exI [of _ i]) (simp add: lens)
    qed
    have "filter (ownedBy mid) (map ?f ?slots) = map ?f (filter (ownedBy mid) ?slots)"
      using same by (simp add: filter_map o_def)
    with l(1) have b: "length (filter (ownedBy mid) (slotList (levels g' ! l))) =
            length (filter (ownedBy mid) (slotList (levels g ! l)))"
      by (simp add: sl)
    have c: "the (machineCatalog g' mid) = the (machineCatalog g mid)"
      using ne by (simp add: g')
    from l(1,2,3,5) a b c lenl
    show "\<exists>l<length (levels g'). lv' = int l \<and> idxs' \<noteq> [] \<and>
           (\<forall>idx\<in>set idxs'. \<exists>i<length (slotList (levels g' ! l)).
              idx = int i \<and> ownedBy mid (slotList (levels g' ! l) ! i)) \<and>
           int (length (filter (ownedBy mid) (slotList (levels g' ! l)))) =
             slotsNeeded (the (machineCatalog g' mid))"
      by (intro exI [of _ l]) simp
  qed
  have orc': "occupantsRecorded g'"
    unfolding occupantsRecorded_def
  proof (intro allI impI)
    fix l i
    assume l: "l < length (levels g')" and i: "i < length (slotList (levels g' ! l))"
      and occ: "isOccupied (slotList (levels g' ! l) ! i)"
    from l lenl have l0: "l < length (levels g)" by simp
    from i l0 have i0: "i < length (slotList (levels g ! l))" by (simp add: lens)
    let ?s = "slotList (levels g ! l) ! i"
    have notk: "\<not> (l = k \<and> ownedBy machineId ?s)"
    proof
      assume "l = k \<and> ownedBy machineId ?s"
      with i0 have "l = k" "i < length ?slots" "ownedBy machineId (?slots ! i)" by auto
      from vacated [OF this(2,3)] have "\<not> isOccupied (slotList (levels g' ! k) ! i)" by simp
      with occ \<open>l = k\<close> show False by simp
    qed
    from kept [OF l0 i0 this] have same: "slotList (levels g' ! l) ! i = ?s" .
    with occ have o: "isOccupied ?s" by simp
    from orc l0 i0 o obtain idxs' where
      r: "machineLocations g (occupantId ?s) = Some (int l, idxs')" "int i \<in> set idxs'"
      unfolding occupantsRecorded_def by blast
    have "occupantId ?s \<noteq> machineId"
    proof
      assume e: "occupantId ?s = machineId"
      with r loc have "l = k" by simp
      with notk o e show False by (simp add: ownedBy_def)
    qed
    with r same
    show "\<exists>idxs'. machineLocations g' (occupantId (slotList (levels g' ! l) ! i)) = Some (int l, idxs') \<and>
           int i \<in> set idxs'"
      by (simp add: g')
  qed
  from wf' dm' fin' lv' orc' show ?thesis by (simp add: garageInv_def)
qed

lemma counts_park:
  assumes inv: "garageInv g"
    and new: "machineLocations g (identifier machine) = None"
    and k: "k < length (levels g)"
    and rng: "\<forall>idx\<in>set idxs. inRange (slotList (levels g ! k)) idx \<and>
                \<not> isOccupied (slotList (levels g ! k) ! nat idx)"
    and dist: "distinct idxs"
    and cnt: "int (length idxs) = slotsNeeded machine"
    and len: "length slots' = length (slotList (levels g ! k))"
    and nth: "\<forall>j<length (slotList (levels g ! k)). slots' ! j =
         (if int j \<in> set idxs
          then (slotList (levels g ! k) ! j)\<lparr>occupantId := identifier machine, isOccupied := True\<rparr>
          else slotList (levels g ! k) ! j)"
    and g': "g' = g\<lparr>levels := (levels g)[k := (levels g ! k)\<lparr>slotList := slots'\<rparr>],
           machineLocations := (machineLocations g)(identifier machine \<mapsto> (int k, idxs)),
           machineCatalog := (machineCatalog g)(identifier machine \<mapsto> machine)\<rparr>"
  shows "freeSlotsCount (levels g' ! k) = freeSlotsCount (levels g ! k) - slotsNeeded machine"
    and "totalFree g' = totalFree g - slotsNeeded machine"
    and "parkedSlots g' = parkedSlots g + slotsNeeded machine"
proof -
  from free_after_occupy [OF len nth rng dist] cnt
  have f: "freeSlotsCount ((levels g ! k)\<lparr>slotList := slots'\<rparr>) =
      freeSlotsCount (levels g ! k) - slotsNeeded machine"
    by (simp add: freeSlotsCount_eq)
  with k show "freeSlotsCount (levels g' ! k) = freeSlotsCount (levels g ! k) - slotsNeeded machine"
    by (simp add: g')
  from f k show "totalFree g' = totalFree g - slotsNeeded machine"
    by (simp add: totalFree_def g' sum_list_map_update)
  from inv have dm: "dom (machineLocations g) = dom (machineCatalog g)"
    and fin: "finite (dom (machineCatalog g))"
    by (simp_all add: garageInv_def)
  from new dm have notin: "identifier machine \<notin> dom (machineCatalog g)" by auto
  have "(\<Sum>m\<in>dom (machineCatalog g).
           slotsNeeded (the (((machineCatalog g)(identifier machine \<mapsto> machine)) m))) =
        (\<Sum>m\<in>dom (machineCatalog g). slotsNeeded (the (machineCatalog g m)))"
    using notin by (intro sum.cong) auto
  with fin notin show "parkedSlots g' = parkedSlots g + slotsNeeded machine"
    by (simp add: parkedSlots_def g')
qed

lemma counts_unpark:
  assumes inv: "garageInv g"
    and loc: "machineLocations g machineId = Some (int k, idxs)"
    and k: "k < length (levels g)"
    and g': "g' = g\<lparr>levels := (levels g)[k := (levels g ! k)\<lparr>slotList :=
           map (\<lambda>s. if ownedBy machineId s then s\<lparr>occupantId := [], isOccupied := False\<rparr> else s)
             (slotList (levels g ! k))\<rparr>],
         machineLocations := (machineLocations g)(machineId := None),
         machineCatalog := (machineCatalog g)(machineId := None)\<rparr>"
  shows "totalFree g' = totalFree g + slotsNeeded (the (machineCatalog g machineId))"
    and "parkedSlots g' = parkedSlots g - slotsNeeded (the (machineCatalog g machineId))"
proof -
  from inv have dm: "dom (machineLocations g) = dom (machineCatalog g)"
    and fin: "finite (dom (machineCatalog g))" and lv: "locationsValid g"
    by (simp_all add: garageInv_def)
  from lv loc have "int (length (filter (ownedBy machineId) (slotList (levels g ! k)))) =
      slotsNeeded (the (machineCatalog g machineId))"
    unfolding locationsValid_def by fastforce
  then have "freeSlotsCount ((levels g ! k)\<lparr>slotList :=
           map (\<lambda>s. if ownedBy machineId s then s\<lparr>occupantId := [], isOccupied := False\<rparr> else s)
             (slotList (levels g ! k))\<rparr>) =
      freeSlotsCount (levels g ! k) + slotsNeeded (the (machineCatalog g machineId))"
    using free_after_vacate [of machineId "slotList (levels g ! k)"]
    by (simp add: freeSlotsCount_eq)
  with k show "totalFree g' = totalFree g + slotsNeeded (the (machineCatalog g machineId))"
    by (simp add: totalFree_def g' sum_list_map_update)
  from loc dm have isin: "machineId \<in> dom (machineCatalog g)" by auto
  have "(\<Sum>m\<in>dom (machineCatalog g) - {machineId}.
           slotsNeeded (the (((machineCatalog g)(machineId := None)) m))) =
        (\<Sum>m\<in>dom (machineCatalog g) - {machineId}. slotsNeeded (the (machineCatalog g m)))"
    by (intro sum.cong) auto
  moreover from fin isin have "(\<Sum>m\<in>dom (machineCatalog g). slotsNeeded (the (machineCatalog g m))) =
      slotsNeeded (the (machineCatalog g machineId)) +
      (\<Sum>m\<in>dom (machineCatalog g) - {machineId}. slotsNeeded (the (machineCatalog g m)))"
    by (rule sum.remove)
  ultimately show "parkedSlots g' = parkedSlots g - slotsNeeded (the (machineCatalog g machineId))"
    by (simp add: parkedSlots_def g')
qed

text \<open>One operation on a garage that satisfies the invariant: it returns, the invariant
  holds again, and free slots and parked slots still add up to the same number.\<close>

lemma storeMachine_inv:
  assumes inv: "garageInv g"
  shows "\<exists>b g'. storeMachine g machine = Some (b, g') \<and> garageInv g' \<and>
           totalFree g' + parkedSlots g' = totalFree g + parkedSlots g"
proof (cases "machineLocations g (identifier machine) = None")
  case False
  with inv show ?thesis by (auto simp: storeMachine_def)
next
  case new: True
  from inv have wf: "wfLevels (levels g)" by (simp add: garageInv_def)
  from wf new show ?thesis
  proof (cases rule: storeMachine_cases)
    case Full
    with inv show ?thesis by auto
  next
    case (Parked k slots')
    from wf Parked(1) have "wfSlots (slotList (levels g ! k))" by (simp add: wfLevels_def)
    from spotsAvailable_props [OF this Parked(3)]
    have p: "\<forall>idx\<in>set (spotsAvailable (levels g ! k) machine).
            inRange (slotList (levels g ! k)) idx \<and> \<not> isOccupied (slotList (levels g ! k) ! nat idx)"
      "distinct (spotsAvailable (levels g ! k) machine)"
      "int (length (spotsAvailable (levels g ! k) machine)) = slotsNeeded machine"
      by blast+
    note a = inv new Parked(1)
    note b = p(1,2,3) Parked(4,5) refl
    from garageInv_park [OF a Parked(3) b] counts_park(2,3) [OF a b] Parked(6)
    show ?thesis by auto
  qed
qed

lemma unparkMachine_inv:
  assumes inv: "garageInv g"
  shows "\<exists>b g'. unparkMachine g machineId = Some (b, g') \<and> garageInv g' \<and>
           totalFree g' + parkedSlots g' = totalFree g + parkedSlots g"
proof (cases "machineLocations g machineId")
  case None
  with inv show ?thesis by (auto simp: unparkMachine_def)
next
  case (Some loc)
  obtain lv idxs where "loc = (lv, idxs)" by (cases loc)
  with Some have loc: "machineLocations g machineId = Some (lv, idxs)" by simp
  from inv loc obtain l where l: "l < length (levels g)" "lv = int l"
    "unparkMachine g machineId =
       Some (True, g\<lparr>levels := (levels g)[l := (levels g ! l)\<lparr>slotList :=
           map (\<lambda>s. if ownedBy machineId s then s\<lparr>occupantId := [], isOccupied := False\<rparr> else s)
             (slotList (levels g ! l))\<rparr>],
         machineLocations := (machineLocations g)(machineId := None),
         machineCatalog := (machineCatalog g)(machineId := None)\<rparr>)"
    by (rule unparkMachine_parked)
  from loc l(2) have loc': "machineLocations g machineId = Some (int l, idxs)" by simp
  from garageInv_unpark [OF inv loc' l(1) refl] counts_unpark [OF inv loc' l(1) refl] l(3)
  show ?thesis by auto
qed

lemma step_inv:
  assumes "garageInv g"
  shows "\<exists>g'. step g op = Some g' \<and> garageInv g' \<and>
           totalFree g' + parkedSlots g' = totalFree g + parkedSlots g"
proof (cases op)
  case (Store machine)
  with storeMachine_inv [OF assms, of machine] show ?thesis by (auto simp: step_def)
next
  case (Unpark machineId)
  with unparkMachine_inv [OF assms, of machineId] show ?thesis by (auto simp: step_def)
qed

lemma runOps_inv:
  "garageInv g \<Longrightarrow>
   \<exists>g'. runOps g ops = Some g' \<and> garageInv g' \<and>
      totalFree g' + parkedSlots g' = totalFree g + parkedSlots g"
proof (induction ops arbitrary: g)
  case Nil
  then show ?case by simp
next
  case (Cons op ops)
  from step_inv [OF Cons.prems, of op] obtain g1 where
    g1: "step g op = Some g1" "garageInv g1"
      "totalFree g1 + parkedSlots g1 = totalFree g + parkedSlots g"
    by blast
  from Cons.IH [OF g1(2)] obtain g' where
    "runOps g1 ops = Some g'" "garageInv g'" "totalFree g' + parkedSlots g' = totalFree g1 + parkedSlots g1"
    by blast
  with g1 show ?case by simp
qed

lemma counts_newGarage:
  "totalFree (newGarage totalLevels slotsEach) = int (nat totalLevels) * int (nat slotsEach)"
  "parkedSlots (newGarage totalLevels slotsEach) = 0"
proof -
  have "freeSlotsCount (newLevel i slotsEach) = int (nat slotsEach)" for i
    by (simp add: freeSlotsCount_eq newLevel_def newSlot_def filter_map o_def)
  then show "totalFree (newGarage totalLevels slotsEach) = int (nat totalLevels) * int (nat slotsEach)"
    by (simp add: totalFree_def newGarage_def o_def sum_list_triv)
  show "parkedSlots (newGarage totalLevels slotsEach) = 0"
    by (simp add: parkedSlots_def newGarage_def)
qed

section \<open>Claims about single operations\<close>

lemmas example_defs = carA1_def truckB1_def garageA1_def newGarage_def newLevel_def newSlot_def

lemma run_garageA1: "runOps (newGarage 1 2) [Store carA1] = Some garageA1"
  by (simp add: example_defs step_def storeMachine_def spotsAvailable_def slotsNeeded_def
      assignMachine_def inRange_def upto.simps)

text \<open>
  Claim C8: \<open>slotsNeeded\<close> returns 2 for a \<open>Truck\<close> and 1 for a \<open>Bike\<close> or a \<open>Car\<close>. The
  command loop maps the type words \<open>Bike\<close> and \<open>Car\<close> to their kinds and every other word to
  \<open>Truck\<close>, so a machine built from such a word needs 2 slots.
\<close>

theorem slotsNeeded_by_kind:
  "slotsNeeded machine = (case kind machine of Bike \<Rightarrow> 1 | Car \<Rightarrow> 1 | Truck \<Rightarrow> 2) \<and>
   kindOfString ''Bike'' = Bike \<and> kindOfString ''Car'' = Car \<and>
   (kindStr \<noteq> ''Bike'' \<and> kindStr \<noteq> ''Car'' \<longrightarrow>
      kindOfString kindStr = Truck \<and>
      slotsNeeded \<lparr>identifier = machineId, kind = kindOfString kindStr\<rparr> = 2)"
  by (cases "kind machine") (simp_all add: slotsNeeded_def kindOfString_def)

theorem slotsNeeded_by_kind_witness:
  "''Van'' \<noteq> ''Bike'' \<and> ''Van'' \<noteq> ''Car'' \<and> kindOfString ''Van'' = Truck \<and>
   slotsNeeded \<lparr>identifier = ''V1'', kind = kindOfString ''Van''\<rparr> = 2 \<and>
   slotsNeeded carA1 = 1"
  using slotsNeeded_by_kind [of carA1 "''Van''" "''V1''"] by (simp add: carA1_def slotsNeeded_def)

text \<open>
  Claim C4: in every garage state where the machine's identifier has a location record,
  \<open>storeMachine\<close> returns \<open>false\<close> and the garage (levels, location map, catalog) is the one
  it was called on.
\<close>

theorem storeMachine_already_parked:
  "machineLocations g (identifier machine) \<noteq> None \<Longrightarrow> storeMachine g machine = Some (False, g)"
  by (simp add: storeMachine_def)

theorem storeMachine_already_parked_witness:
  "machineLocations garageA1 (identifier carA1) \<noteq> None \<and>
   storeMachine garageA1 carA1 = Some (False, garageA1)"
proof -
  have h: "machineLocations garageA1 (identifier carA1) \<noteq> None"
    by (simp add: garageA1_def carA1_def)
  from h storeMachine_already_parked [OF h] show ?thesis by simp
qed

text \<open>
  The same for two calls in a row: after a successful \<open>storeMachine\<close>, a second call with the
  same identifier is refused.
\<close>

lemma storeMachine_twice:
  assumes "storeMachine g machine = Some (True, g')"
    and "identifier machine' = identifier machine"
  shows "storeMachine g' machine' = Some (False, g')"
proof -
  from assms(1) have "machineLocations g' (identifier machine) \<noteq> None"
    by (auto simp: storeMachine_def split: if_splits option.splits prod.splits)
  with assms(2) show ?thesis by (simp add: storeMachine_def)
qed

text \<open>
  Claim C5: in every garage state where the identifier has no location record,
  \<open>unparkMachine\<close> returns \<open>false\<close> and the garage is the one it was called on.
\<close>

theorem unparkMachine_not_parked:
  "machineLocations g machineId = None \<Longrightarrow> unparkMachine g machineId = Some (False, g)"
  by (simp add: unparkMachine_def)

theorem unparkMachine_not_parked_witness:
  "machineLocations garageA1 ''B1'' = None \<and> unparkMachine garageA1 ''B1'' = Some (False, garageA1)"
proof -
  have h: "machineLocations garageA1 ''B1'' = None"
    by (simp add: garageA1_def)
  from h unparkMachine_not_parked [OF h] show ?thesis by simp
qed

text \<open>
  Claim C7: for every level and every list of slot indices inside the level's slot vector,
  \<open>assignMachine\<close> returns \<open>false\<close> with the level as it was when one of the listed slots is
  occupied; otherwise it returns \<open>true\<close>, every listed slot is occupied by the machine's
  identifier, and the level's index, its size and the slots not listed are as before.
\<close>

theorem assignMachine_all_or_nothing:
  assumes "\<forall>idx\<in>set slotsToUse. 0 \<le> idx \<and> idx < int (length (slotList lvl))"
  shows "((\<exists>idx\<in>set slotsToUse. isOccupied (slotList lvl ! nat idx)) \<longrightarrow>
            assignMachine lvl machine slotsToUse = Some (False, lvl)) \<and>
         ((\<forall>idx\<in>set slotsToUse. \<not> isOccupied (slotList lvl ! nat idx)) \<longrightarrow>
            (\<exists>lvl'. assignMachine lvl machine slotsToUse = Some (True, lvl') \<and>
               levelIndex lvl' = levelIndex lvl \<and>
               length (slotList lvl') = length (slotList lvl) \<and>
               (\<forall>idx\<in>set slotsToUse.
                  slotList lvl' ! nat idx =
                    (slotList lvl ! nat idx)\<lparr>occupantId := identifier machine, isOccupied := True\<rparr>) \<and>
               (\<forall>j<length (slotList lvl). int j \<notin> set slotsToUse \<longrightarrow>
                  slotList lvl' ! j = slotList lvl ! j)))"
proof -
  from assms have r: "\<forall>idx\<in>set slotsToUse. inRange (slotList lvl) idx"
    by (auto simp: inRange_def)
  note chk = allFree_inRange [OF r]
  from occupyAll_nth [OF r, of "identifier machine"] obtain slots' where
    s': "occupyAll (slotList lvl) (identifier machine) slotsToUse = Some slots'"
      "length slots' = length (slotList lvl)"
    and nth: "\<forall>j<length (slotList lvl). slots' ! j =
        (if int j \<in> set slotsToUse then snd (occupySlot (slotList lvl ! j) (identifier machine))
         else slotList lvl ! j)"
    by blast
  have fail: "assignMachine lvl machine slotsToUse = Some (False, lvl)"
    if "\<exists>idx\<in>set slotsToUse. isOccupied (slotList lvl ! nat idx)"
  proof -
    from that have "(\<forall>idx\<in>set slotsToUse. \<not> isOccupied (slotList lvl ! nat idx)) = False"
      by blast
    with chk have "allFree (slotList lvl) slotsToUse = Some False" by simp
    then show ?thesis by (simp add: assignMachine_def)
  qed
  have ok: "\<exists>lvl'. assignMachine lvl machine slotsToUse = Some (True, lvl') \<and>
               levelIndex lvl' = levelIndex lvl \<and>
               length (slotList lvl') = length (slotList lvl) \<and>
               (\<forall>idx\<in>set slotsToUse.
                  slotList lvl' ! nat idx =
                    (slotList lvl ! nat idx)\<lparr>occupantId := identifier machine, isOccupied := True\<rparr>) \<and>
               (\<forall>j<length (slotList lvl). int j \<notin> set slotsToUse \<longrightarrow>
                  slotList lvl' ! j = slotList lvl ! j)"
    if free: "\<forall>idx\<in>set slotsToUse. \<not> isOccupied (slotList lvl ! nat idx)"
  proof -
    from free chk s' have a: "assignMachine lvl machine slotsToUse = Some (True, lvl\<lparr>slotList := slots'\<rparr>)"
      by (simp add: assignMachine_def)
    have "slots' ! nat idx = (slotList lvl ! nat idx)\<lparr>occupantId := identifier machine, isOccupied := True\<rparr>"
      if "idx \<in> set slotsToUse" for idx
      using that r free nth by (auto simp: inRange_def)
    with a s' nth show ?thesis by simp
  qed
  from fail ok show ?thesis by blast
qed

theorem assignMachine_all_or_nothing_witness:
  "assignMachine levelA1 truckB1 [0, 1] = Some (False, levelA1) \<and>
   (\<exists>lvl'. assignMachine levelA1 truckB1 [1, 2] = Some (True, lvl') \<and>
      map isOccupied (slotList lvl') = [True, True, True] \<and>
      map occupantId (slotList lvl') = [''A1'', ''B1'', ''B1''])"
proof -
  have r1: "\<forall>idx\<in>set [0, 1]. 0 \<le> idx \<and> idx < int (length (slotList levelA1))"
    and r2: "\<forall>idx\<in>set [1, 2]. 0 \<le> idx \<and> idx < int (length (slotList levelA1))"
    by (simp_all add: levelA1_def)
  have "assignMachine levelA1 truckB1 [0, 1] = Some (False, levelA1)"
    using assignMachine_all_or_nothing [OF r1, of truckB1] by (simp add: levelA1_def)
  moreover have "\<exists>lvl'. assignMachine levelA1 truckB1 [1, 2] = Some (True, lvl') \<and>
      map isOccupied (slotList lvl') = [True, True, True] \<and>
      map occupantId (slotList lvl') = [''A1'', ''B1'', ''B1'']"
    by (simp add: levelA1_def truckB1_def newSlot_def assignMachine_def inRange_def)
  ultimately show ?thesis by simp
qed

subsection \<open>First fit\<close>

lemma spotsAvailable_first_one:
  assumes wf: "wfSlots (slotList lvl)" and one: "slotsNeeded machine = 1"
  shows "(\<forall>i. \<not> freeIn lvl i) \<longrightarrow> spotsAvailable lvl machine = []"
    and "freeIn lvl i \<and> (\<forall>j<i. \<not> freeIn lvl j) \<longrightarrow> spotsAvailable lvl machine = [int i]"
proof -
  from spotsAvailable_one [OF wf one]
  consider (none) "spotsAvailable lvl machine = []" "\<forall>i<length (slotList lvl). isOccupied (slotList lvl ! i)"
    | (some) m where "m < length (slotList lvl)" "spotsAvailable lvl machine = [int m]"
        "\<not> isOccupied (slotList lvl ! m)" "\<forall>j<m. isOccupied (slotList lvl ! j)"
    by blast
  then have "((\<forall>i. \<not> freeIn lvl i) \<longrightarrow> spotsAvailable lvl machine = []) \<and>
     (freeIn lvl i \<and> (\<forall>j<i. \<not> freeIn lvl j) \<longrightarrow> spotsAvailable lvl machine = [int i])"
  proof cases
    case none
    then show ?thesis by (auto simp: freeIn_def)
  next
    case some
    have "i = m" if "freeIn lvl i" "\<forall>j<i. \<not> freeIn lvl j"
    proof (rule ccontr)
      assume "i \<noteq> m"
      then consider "i < m" | "m < i" by linarith
      then show False
      proof cases
        case 1
        with some(4) that(1) show False by (simp add: freeIn_def)
      next
        case 2
        with that(2) some(1,3) show False by (simp add: freeIn_def)
      qed
    qed
    with some show ?thesis by (auto simp: freeIn_def)
  qed
  then show "(\<forall>i. \<not> freeIn lvl i) \<longrightarrow> spotsAvailable lvl machine = []"
    and "freeIn lvl i \<and> (\<forall>j<i. \<not> freeIn lvl j) \<longrightarrow> spotsAvailable lvl machine = [int i]"
    by blast+
qed

lemma spotsAvailable_first_two:
  assumes wf: "wfSlots (slotList lvl)" and two: "slotsNeeded machine = 2"
  shows "(\<forall>i. \<not> freePairIn lvl i) \<longrightarrow> spotsAvailable lvl machine = []"
    and "freePairIn lvl i \<and> (\<forall>j<i. \<not> freePairIn lvl j) \<longrightarrow>
           spotsAvailable lvl machine = [int i, int i + 1]"
proof -
  from two have "slotsNeeded machine \<noteq> 1" by simp
  from spotsAvailable_two [OF wf this]
  consider (none) "spotsAvailable lvl machine = []"
      "\<forall>i. i + 1 < length (slotList lvl) \<longrightarrow>
               isOccupied (slotList lvl ! i) \<or> isOccupied (slotList lvl ! (i + 1))"
    | (some) m where "m + 1 < length (slotList lvl)" "spotsAvailable lvl machine = [int m, int m + 1]"
        "\<not> isOccupied (slotList lvl ! m)" "\<not> isOccupied (slotList lvl ! (m + 1))"
        "\<forall>j<m. isOccupied (slotList lvl ! j) \<or> isOccupied (slotList lvl ! (j + 1))"
    by blast
  then have "((\<forall>i. \<not> freePairIn lvl i) \<longrightarrow> spotsAvailable lvl machine = []) \<and>
     (freePairIn lvl i \<and> (\<forall>j<i. \<not> freePairIn lvl j) \<longrightarrow>
        spotsAvailable lvl machine = [int i, int i + 1])"
  proof cases
    case none
    then show ?thesis by (auto simp: freePairIn_def freeIn_def)
  next
    case some
    from some(1,3,4) have pm: "freePairIn lvl m" by (simp add: freePairIn_def freeIn_def)
    have "i = m" if "freePairIn lvl i" "\<forall>j<i. \<not> freePairIn lvl j"
    proof (rule ccontr)
      assume "i \<noteq> m"
      then consider "i < m" | "m < i" by linarith
      then show False
      proof cases
        case 1
        with some(5) that(1) show False by (auto simp: freePairIn_def freeIn_def)
      next
        case 2
        with that(2) pm show False by simp
      qed
    qed
    with some(2) pm show ?thesis by auto
  qed
  then show "(\<forall>i. \<not> freePairIn lvl i) \<longrightarrow> spotsAvailable lvl machine = []"
    and "freePairIn lvl i \<and> (\<forall>j<i. \<not> freePairIn lvl j) \<longrightarrow>
           spotsAvailable lvl machine = [int i, int i + 1]"
    by blast+
qed

lemma spotsAvailable_two_pair:
  assumes wf: "wfSlots (slotList lvl)" and two: "slotsNeeded machine = 2"
  shows "spotsAvailable lvl machine = [] \<and> (\<forall>i. \<not> freePairIn lvl i) \<or>
         (\<exists>i. freePairIn lvl i \<and> spotsAvailable lvl machine = [int i, int i + 1])"
proof -
  from two have "slotsNeeded machine \<noteq> 1" by simp
  from spotsAvailable_two [OF wf this] show ?thesis
    by (auto simp: freePairIn_def freeIn_def)
qed

section \<open>Claims about sequences of operations\<close>

lemma reachable_inv:
  assumes "runOps (newGarage totalLevels slotsEach) ops = Some g"
  shows "garageInv g"
  using runOps_inv [OF garageInv_newGarage, of totalLevels slotsEach ops] assms by auto

lemma occupiedBy_pos:
  "occupiedBy g lv idx machineId \<longleftrightarrow>
     (\<exists>l i. lv = int l \<and> idx = int i \<and> l < length (levels g) \<and>
        i < length (slotList (levels g ! l)) \<and> ownedBy machineId (slotList (levels g ! l) ! i))"
proof
  assume "occupiedBy g lv idx machineId"
  then have "lv = int (nat lv) \<and> idx = int (nat idx) \<and> nat lv < length (levels g) \<and>
        nat idx < length (slotList (levels g ! nat lv)) \<and>
        ownedBy machineId (slotList (levels g ! nat lv) ! nat idx)"
    by (simp add: occupiedBy_def inRange_def)
  then show "\<exists>l i. lv = int l \<and> idx = int i \<and> l < length (levels g) \<and>
        i < length (slotList (levels g ! l)) \<and> ownedBy machineId (slotList (levels g ! l) ! i)"
    by blast
next
  assume "\<exists>l i. lv = int l \<and> idx = int i \<and> l < length (levels g) \<and>
        i < length (slotList (levels g ! l)) \<and> ownedBy machineId (slotList (levels g ! l) ! i)"
  then show "occupiedBy g lv idx machineId"
    by (auto simp: occupiedBy_def inRange_def)
qed

lemma garageInv_locations:
  assumes inv: "garageInv g"
  shows "(machineLocations g machineId \<noteq> None) = (machineCatalog g machineId \<noteq> None)"
    and "machineLocations g machineId = Some (lv, idxs) \<Longrightarrow>
           idxs \<noteq> [] \<and> (\<forall>idx\<in>set idxs. occupiedBy g lv idx machineId)"
    and "occupiedBy g lv idx machineId \<Longrightarrow>
           \<exists>idxs. machineLocations g machineId = Some (lv, idxs) \<and> idx \<in> set idxs"
proof -
  from inv have dm: "dom (machineLocations g) = dom (machineCatalog g)"
    and lv: "locationsValid g" and orc: "occupantsRecorded g"
    by (simp_all add: garageInv_def)
  from dm show "(machineLocations g machineId \<noteq> None) = (machineCatalog g machineId \<noteq> None)"
    by (simp add: set_eq_iff dom_def)
  show "idxs \<noteq> [] \<and> (\<forall>idx\<in>set idxs. occupiedBy g lv idx machineId)"
    if "machineLocations g machineId = Some (lv, idxs)"
  proof -
    from lv that obtain l where l: "l < length (levels g)" "lv = int l" "idxs \<noteq> []"
      "\<forall>idx\<in>set idxs. \<exists>i<length (slotList (levels g ! l)).
          idx = int i \<and> ownedBy machineId (slotList (levels g ! l) ! i)"
      unfolding locationsValid_def by blast
    then show ?thesis by (auto simp: occupiedBy_pos)
  qed
  show "\<exists>idxs. machineLocations g machineId = Some (lv, idxs) \<and> idx \<in> set idxs"
    if "occupiedBy g lv idx machineId"
  proof -
    from that obtain l i where li: "lv = int l" "idx = int i" "l < length (levels g)"
      "i < length (slotList (levels g ! l))" "ownedBy machineId (slotList (levels g ! l) ! i)"
      unfolding occupiedBy_pos by blast
    from li(5) have "isOccupied (slotList (levels g ! l) ! i)"
      "occupantId (slotList (levels g ! l) ! i) = machineId"
      by (simp_all add: ownedBy_def)
    with orc li(3,4) have "\<exists>idxs. machineLocations g machineId = Some (int l, idxs) \<and> int i \<in> set idxs"
      unfolding occupantsRecorded_def by blast
    with li(1,2) show ?thesis by simp
  qed
qed

lemma occupiedBy_unique: "occupiedBy g lv idx a \<Longrightarrow> occupiedBy g lv idx b \<Longrightarrow> a = b"
  by (simp add: occupiedBy_def ownedBy_def)

text \<open>
  Claim C1: every sequence of \<open>storeMachine\<close> and \<open>unparkMachine\<close> calls on a freshly
  constructed garage runs to its end, and in the garage it leaves an identifier is a key of
  the location map iff it is a key of the catalog, and iff some slot is occupied by it; every
  slot index recorded for an identifier is a slot of the recorded level occupied by exactly
  that identifier; every slot occupied by an identifier is recorded in that identifier's
  location; and the location entries of two different identifiers share no slot.
\<close>

theorem locations_match_slots:
  "\<exists>g. runOps (newGarage totalLevels slotsEach) ops = Some g \<and>
     (\<forall>machineId. (machineLocations g machineId \<noteq> None) = (machineCatalog g machineId \<noteq> None)) \<and>
     (\<forall>machineId. (machineLocations g machineId \<noteq> None) = (\<exists>lv idx. occupiedBy g lv idx machineId)) \<and>
     (\<forall>machineId lv idxs. machineLocations g machineId = Some (lv, idxs) \<longrightarrow>
        idxs \<noteq> [] \<and> (\<forall>idx\<in>set idxs. occupiedBy g lv idx machineId)) \<and>
     (\<forall>machineId lv idx. occupiedBy g lv idx machineId \<longrightarrow>
        (\<exists>idxs. machineLocations g machineId = Some (lv, idxs) \<and> idx \<in> set idxs)) \<and>
     (\<forall>a b lv idxs idxs'. a \<noteq> b \<and> machineLocations g a = Some (lv, idxs) \<and>
        machineLocations g b = Some (lv, idxs') \<longrightarrow> set idxs \<inter> set idxs' = {})"
proof -
  from runOps_inv [OF garageInv_newGarage, of totalLevels slotsEach ops] obtain g where
    run: "runOps (newGarage totalLevels slotsEach) ops = Some g" and inv: "garageInv g"
    by blast
  note loc = garageInv_locations [OF inv]
  have c1: "\<forall>machineId. (machineLocations g machineId \<noteq> None) = (machineCatalog g machineId \<noteq> None)"
    using loc(1) by blast
  have c3: "\<forall>machineId lv idxs. machineLocations g machineId = Some (lv, idxs) \<longrightarrow>
        idxs \<noteq> [] \<and> (\<forall>idx\<in>set idxs. occupiedBy g lv idx machineId)"
    using loc(2) by blast
  have c4: "\<forall>machineId lv idx. occupiedBy g lv idx machineId \<longrightarrow>
        (\<exists>idxs. machineLocations g machineId = Some (lv, idxs) \<and> idx \<in> set idxs)"
    using loc(3) by blast
  have c2: "(machineLocations g machineId \<noteq> None) = (\<exists>lv idx. occupiedBy g lv idx machineId)"
    for machineId
  proof
    assume "machineLocations g machineId \<noteq> None"
    then obtain lv idxs where l: "machineLocations g machineId = Some (lv, idxs)" by auto
    from loc(2) [OF l] obtain idx where "idx \<in> set idxs" "occupiedBy g lv idx machineId"
      by (cases idxs) auto
    then show "\<exists>lv idx. occupiedBy g lv idx machineId" by blast
  next
    assume "\<exists>lv idx. occupiedBy g lv idx machineId"
    with loc(3) show "machineLocations g machineId \<noteq> None" by fastforce
  qed
  have c5: "set idxs \<inter> set idxs' = {}"
    if "a \<noteq> b" "machineLocations g a = Some (lv, idxs)" "machineLocations g b = Some (lv, idxs')"
    for a b lv idxs idxs'
  proof (rule ccontr)
    assume "set idxs \<inter> set idxs' \<noteq> {}"
    then obtain idx where "idx \<in> set idxs" "idx \<in> set idxs'" by blast
    with loc(2) [OF that(2)] loc(2) [OF that(3)]
    have "occupiedBy g lv idx a" "occupiedBy g lv idx b" by blast+
    with that(1) show False by (blast dest: occupiedBy_unique)
  qed
  from run c1 c2 c3 c4 c5 show ?thesis by blast
qed

text \<open>
  Claim C6: after every sequence of operations on a freshly constructed garage with \<open>L\<close>
  levels of \<open>N\<close> slots, the sum of \<open>freeSlotsCount\<close> over the levels is \<open>L * N\<close> minus the sum
  of \<open>slotsNeeded\<close> over the machines in the catalog.
\<close>

theorem availability_sum:
  assumes "0 \<le> totalLevels" and "0 \<le> slotsEach"
  shows "\<exists>g. runOps (newGarage totalLevels slotsEach) ops = Some g \<and>
           sum_list (map freeSlotsCount (levels g)) =
             totalLevels * slotsEach -
             (\<Sum>machineId\<in>dom (machineCatalog g). slotsNeeded (the (machineCatalog g machineId)))"
proof -
  from runOps_inv [OF garageInv_newGarage, of totalLevels slotsEach ops] obtain g where
    run: "runOps (newGarage totalLevels slotsEach) ops = Some g"
    and sum: "totalFree g + parkedSlots g =
       totalFree (newGarage totalLevels slotsEach) + parkedSlots (newGarage totalLevels slotsEach)"
    by blast
  from sum assms have "totalFree g = totalLevels * slotsEach - parkedSlots g"
    by (simp add: counts_newGarage)
  with run show ?thesis by (simp add: totalFree_def parkedSlots_def)
qed

text \<open>
  Claim C10: when \<open>storeMachine\<close> is called with an identifier that is not parked and returns
  \<open>false\<close>, the garage it leaves (all levels and slots, location map, catalog) is the garage
  it was called on. This holds for every value of the garage.
\<close>

theorem storeMachine_failure_unchanged:
  assumes "machineLocations g (identifier machine) = None"
    and "storeMachine g machine = Some (False, g')"
  shows "g' = g"
proof -
  from assms obtain lvls where "storeLoop (levels g) machine = Some (lvls, None)"
    and g': "g' = g\<lparr>levels := lvls\<rparr>"
    by (auto simp: storeMachine_def split: option.splits prod.splits)
  from storeLoop_none_same [OF this(1)] g' show ?thesis by simp
qed

lemma unpark_after_park:
  assumes inv: "garageInv g"
    and new: "machineLocations g (identifier machine) = None"
    and st: "storeMachine g machine = Some (True, g')"
  shows "unparkMachine g' (identifier machine) = Some (True, g)"
proof -
  let ?mid = "identifier machine"
  let ?f = "\<lambda>s. if ownedBy ?mid s then s\<lparr>occupantId := [], isOccupied := False\<rparr> else s"
  from inv have wf: "wfLevels (levels g)"
    and dm: "dom (machineLocations g) = dom (machineCatalog g)"
    and orc: "occupantsRecorded g"
    by (simp_all add: garageInv_def)
  from wf new show ?thesis
  proof (cases rule: storeMachine_cases)
    case Full
    with st show ?thesis by simp
  next
    case (Parked k slots')
    let ?slots = "slotList (levels g ! k)" and ?idxs = "spotsAvailable (levels g ! k) machine"
    from wf Parked(1) have wfk: "wfSlots ?slots" by (simp add: wfLevels_def)
    from spotsAvailable_props [OF wfk Parked(3)]
    have p: "\<forall>idx\<in>set ?idxs. inRange ?slots idx \<and> \<not> isOccupied (?slots ! nat idx)"
      "distinct ?idxs" "int (length ?idxs) = slotsNeeded machine"
      by blast+
    from st Parked(6) have g': "g' = g\<lparr>levels := (levels g)[k := (levels g ! k)\<lparr>slotList := slots'\<rparr>],
           machineLocations := (machineLocations g)(?mid \<mapsto> (int k, ?idxs)),
           machineCatalog := (machineCatalog g)(?mid \<mapsto> machine)\<rparr>"
      by simp
    from garageInv_park [OF inv new Parked(1,3) p Parked(4,5) g'] have inv': "garageInv g'" .
    have loc': "machineLocations g' ?mid = Some (int k, ?idxs)" by (simp add: g')
    from unparkMachine_parked [OF inv' loc'] obtain l where l: "int k = int l"
      "unparkMachine g' ?mid =
         Some (True, g'\<lparr>levels := (levels g')[l := (levels g' ! l)\<lparr>slotList :=
             map ?f (slotList (levels g' ! l))\<rparr>],
           machineLocations := (machineLocations g')(?mid := None),
           machineCatalog := (machineCatalog g')(?mid := None)\<rparr>)"
      by blast
    from l(1) have lk: "l = k" by simp
    have restored: "map ?f slots' = ?slots"
    proof (rule nth_equalityI)
      show "length (map ?f slots') = length ?slots" by (simp add: Parked(4))
    next
      fix j assume "j < length (map ?f slots')"
      then have j: "j < length ?slots" by (simp add: Parked(4))
      show "map ?f slots' ! j = ?slots ! j"
      proof (cases "int j \<in> set ?idxs")
        case True
        with p(1) have "\<not> isOccupied (?slots ! j)" by fastforce
        moreover with wfk j have "occupantId (?slots ! j) = []" by (simp add: wfSlots_def)
        ultimately show ?thesis using True j Parked(4,5) by (simp add: ownedBy_def)
      next
        case False
        have "\<not> ownedBy ?mid (?slots ! j)"
        proof
          assume "ownedBy ?mid (?slots ! j)"
          then have o: "isOccupied (?slots ! j)" and m: "occupantId (?slots ! j) = ?mid"
            by (simp_all add: ownedBy_def)
          from orc Parked(1) j o obtain idxs' where
            "machineLocations g (occupantId (?slots ! j)) = Some (int k, idxs')"
            unfolding occupantsRecorded_def by blast
          with m new show False by simp
        qed
        with False j Parked(4,5) show ?thesis by simp
      qed
    qed
    from new dm have cat: "machineCatalog g ?mid = None" by auto
    have "g'\<lparr>levels := (levels g')[k := (levels g' ! k)\<lparr>slotList :=
             map ?f (slotList (levels g' ! k))\<rparr>],
           machineLocations := (machineLocations g')(?mid := None),
           machineCatalog := (machineCatalog g')(?mid := None)\<rparr> = g"
    proof -
      from new have "(machineLocations g)(?mid := None) = machineLocations g"
        by (rule fun_upd_idem)
      moreover from cat have "(machineCatalog g)(?mid := None) = machineCatalog g"
        by (rule fun_upd_idem)
      ultimately show ?thesis using Parked(1) restored by (simp add: g')
    qed
    with l(2) lk show ?thesis by simp
  qed
qed

text \<open>
  Claim C9: in every garage state reached from a freshly constructed garage, if
  \<open>storeMachine\<close> succeeds for a machine whose identifier is not parked, then \<open>unparkMachine\<close>
  of that identifier right after succeeds and gives back exactly the garage before the
  park: every slot with its flag and occupant, the location map and the catalog.
\<close>

theorem park_unpark_roundtrip:
  assumes "runOps (newGarage totalLevels slotsEach) ops = Some g"
    and "machineLocations g (identifier machine) = None"
    and "storeMachine g machine = Some (True, g')"
  shows "unparkMachine g' (identifier machine) = Some (True, g)"
  using unpark_after_park [OF reachable_inv [OF assms(1)] assms(2,3)] .

lemma truck_park:
  assumes inv: "garageInv g" and truck: "kind machine = Truck"
    and new: "machineLocations g (identifier machine) = None"
  shows "\<exists>b g'. storeMachine g machine = Some (b, g') \<and>
           (b \<longleftrightarrow> (\<exists>l<length (levels g). \<exists>i. freePairIn (levels g ! l) i)) \<and>
           (b \<longrightarrow> (\<exists>l<length (levels g). \<exists>i. freePairIn (levels g ! l) i \<and>
              machineLocations g' (identifier machine) = Some (int l, [int i, int i + 1]) \<and>
              length (levels g') = length (levels g) \<and>
              (\<forall>l'<length (levels g).
                 length (slotList (levels g' ! l')) = length (slotList (levels g ! l')) \<and>
                 (\<forall>j<length (slotList (levels g ! l')). slotList (levels g' ! l') ! j =
                    (if l' = l \<and> (j = i \<or> j = i + 1)
                     then (slotList (levels g ! l') ! j)\<lparr>occupantId := identifier machine,
                                                          isOccupied := True\<rparr>
                     else slotList (levels g ! l') ! j))) \<and>
              freeSlotsCount (levels g' ! l) = freeSlotsCount (levels g ! l) - 2))"
proof -
  from truck have two: "slotsNeeded machine = 2" by (simp add: slotsNeeded_def)
  from inv have wf: "wfLevels (levels g)" by (simp add: garageInv_def)
  from wf new show ?thesis
  proof (cases rule: storeMachine_cases)
    case Full
    have "\<not> freePairIn (levels g ! l) i" if "l < length (levels g)" for l i
    proof -
      from wf that have "wfSlots (slotList (levels g ! l))" by (simp add: wfLevels_def)
      from spotsAvailable_two_pair [OF this two] Full(2) that show ?thesis by auto
    qed
    with Full(1) show ?thesis by auto
  next
    case (Parked k slots')
    let ?lvl = "levels g ! k" and ?mid = "identifier machine"
    from wf Parked(1) have wfk: "wfSlots (slotList ?lvl)" by (simp add: wfLevels_def)
    from spotsAvailable_two_pair [OF wfk two] Parked(3) obtain i where
      i: "freePairIn ?lvl i" "spotsAvailable ?lvl machine = [int i, int i + 1]"
      by blast
    from spotsAvailable_props [OF wfk Parked(3)]
    have p: "\<forall>idx\<in>set (spotsAvailable ?lvl machine).
            inRange (slotList ?lvl) idx \<and> \<not> isOccupied (slotList ?lvl ! nat idx)"
      "distinct (spotsAvailable ?lvl machine)"
      "int (length (spotsAvailable ?lvl machine)) = slotsNeeded machine"
      by blast+
    define g' where "g' = g\<lparr>levels := (levels g)[k := ?lvl\<lparr>slotList := slots'\<rparr>],
           machineLocations := (machineLocations g)(?mid \<mapsto> (int k, spotsAvailable ?lvl machine)),
           machineCatalog := (machineCatalog g)(?mid \<mapsto> machine)\<rparr>"
    from counts_park(1) [OF inv new Parked(1) p Parked(4,5) g'_def] two
    have fc: "freeSlotsCount (levels g' ! k) = freeSlotsCount ?lvl - 2" by simp
    have loc: "machineLocations g' ?mid = Some (int k, [int i, int i + 1])"
      by (simp add: g'_def i(2))
    have len: "length (levels g') = length (levels g)" by (simp add: g'_def)
    have slots: "length (slotList (levels g' ! l')) = length (slotList (levels g ! l')) \<and>
        (\<forall>j<length (slotList (levels g ! l')). slotList (levels g' ! l') ! j =
            (if l' = k \<and> (j = i \<or> j = i + 1)
             then (slotList (levels g ! l') ! j)\<lparr>occupantId := ?mid, isOccupied := True\<rparr>
             else slotList (levels g ! l') ! j))"
      if "l' < length (levels g)" for l'
    proof (cases "l' = k")
      case False
      with that Parked(1) show ?thesis by (simp add: g'_def)
    next
      case True
      have "int j \<in> set (spotsAvailable ?lvl machine) \<longleftrightarrow> j = i \<or> j = i + 1" for j
        by (auto simp: i(2))
      with Parked(1,4,5) show ?thesis unfolding True by (simp add: g'_def)
    qed
    from Parked(1) i(1) loc len slots fc
    have "\<exists>l<length (levels g). \<exists>i. freePairIn (levels g ! l) i \<and>
              machineLocations g' ?mid = Some (int l, [int i, int i + 1]) \<and>
              length (levels g') = length (levels g) \<and>
              (\<forall>l'<length (levels g).
                 length (slotList (levels g' ! l')) = length (slotList (levels g ! l')) \<and>
                 (\<forall>j<length (slotList (levels g ! l')). slotList (levels g' ! l') ! j =
                    (if l' = l \<and> (j = i \<or> j = i + 1)
                     then (slotList (levels g ! l') ! j)\<lparr>occupantId := ?mid, isOccupied := True\<rparr>
                     else slotList (levels g ! l') ! j))) \<and>
              freeSlotsCount (levels g' ! l) = freeSlotsCount (levels g ! l) - 2"
      by (intro exI [of _ k] conjI exI [of _ i]) simp_all
    moreover from Parked(1) i(1) have "\<exists>l<length (levels g). \<exists>i. freePairIn (levels g ! l) i"
      by blast
    moreover from Parked(6) have "storeMachine g machine = Some (True, g')"
      by (simp add: g'_def)
    ultimately show ?thesis by (intro exI [of _ True] exI [of _ g']) simp
  qed
qed

text \<open>
  Claim C2, amended: in every garage state reached from a freshly constructed garage, and
  for every \<open>Truck\<close> whose identifier has no location record, \<open>storeMachine\<close> returns, and it
  succeeds iff some level has two adjacent free slots. When it succeeds, a free pair
  \<open>i\<close>, \<open>i + 1\<close> of one level \<open>l\<close> is recorded as the location, these two slots become
  occupied by the machine, every other slot of every level is as before, and
  \<open>freeSlotsCount\<close> of level \<open>l\<close> is smaller by 2.
\<close>

theorem truck_parks_iff_free_pair:
  assumes "runOps (newGarage totalLevels slotsEach) ops = Some g"
    and "kind machine = Truck"
    and "machineLocations g (identifier machine) = None"
  shows "\<exists>b g'. storeMachine g machine = Some (b, g') \<and>
           (b \<longleftrightarrow> (\<exists>l<length (levels g). \<exists>i. freePairIn (levels g ! l) i)) \<and>
           (b \<longrightarrow> (\<exists>l<length (levels g). \<exists>i. freePairIn (levels g ! l) i \<and>
              machineLocations g' (identifier machine) = Some (int l, [int i, int i + 1]) \<and>
              length (levels g') = length (levels g) \<and>
              (\<forall>l'<length (levels g).
                 length (slotList (levels g' ! l')) = length (slotList (levels g ! l')) \<and>
                 (\<forall>j<length (slotList (levels g ! l')). slotList (levels g' ! l') ! j =
                    (if l' = l \<and> (j = i \<or> j = i + 1)
                     then (slotList (levels g ! l') ! j)\<lparr>occupantId := identifier machine,
                                                          isOccupied := True\<rparr>
                     else slotList (levels g ! l') ! j))) \<and>
              freeSlotsCount (levels g' ! l) = freeSlotsCount (levels g ! l) - 2))"
  using truck_park [OF reachable_inv [OF assms(1)] assms(2,3)] .

lemma park_first_fit:
  assumes inv: "garageInv g" and st: "storeMachine g machine = Some (True, g')"
  shows "\<exists>l<length (levels g). spotsAvailable (levels g ! l) machine \<noteq> [] \<and>
           (\<forall>l'<l. spotsAvailable (levels g ! l') machine = []) \<and>
           machineLocations g' (identifier machine) =
             Some (int l, spotsAvailable (levels g ! l) machine) \<and>
           (\<forall>idx\<in>set (spotsAvailable (levels g ! l) machine).
              occupiedBy g' (int l) idx (identifier machine))"
proof -
  have new: "machineLocations g (identifier machine) = None"
  proof (rule ccontr)
    assume "machineLocations g (identifier machine) \<noteq> None"
    then have "storeMachine g machine = Some (False, g)" by (simp add: storeMachine_def)
    with st show False by simp
  qed
  from inv have wf: "wfLevels (levels g)" by (simp add: garageInv_def)
  from wf new show ?thesis
  proof (cases rule: storeMachine_cases)
    case Full
    with st show ?thesis by simp
  next
    case (Parked k slots')
    let ?idxs = "spotsAvailable (levels g ! k) machine"
    from wf Parked(1) have "wfSlots (slotList (levels g ! k))" by (simp add: wfLevels_def)
    from spotsAvailable_props [OF this Parked(3)]
    have p: "\<forall>idx\<in>set ?idxs. inRange (slotList (levels g ! k)) idx \<and>
               \<not> isOccupied (slotList (levels g ! k) ! nat idx)"
      "distinct ?idxs" "int (length ?idxs) = slotsNeeded machine"
      by blast+
    from st Parked(6) have g': "g' = g\<lparr>levels := (levels g)[k := (levels g ! k)\<lparr>slotList := slots'\<rparr>],
           machineLocations := (machineLocations g)(identifier machine \<mapsto> (int k, ?idxs)),
           machineCatalog := (machineCatalog g)(identifier machine \<mapsto> machine)\<rparr>"
      by simp
    from garageInv_park [OF inv new Parked(1,3) p Parked(4,5) g'] have inv': "garageInv g'" .
    have loc: "machineLocations g' (identifier machine) = Some (int k, ?idxs)"
      by (simp add: g')
    from garageInv_locations(2) [OF inv' loc] Parked(1,2,3) loc show ?thesis
      by (intro exI [of _ k]) simp
  qed
qed

lemma park_first_level:
  assumes inv: "garageInv g" and new: "machineLocations g (identifier machine) = None"
  shows "((\<forall>l<length (levels g). spotsAvailable (levels g ! l) machine = []) \<longrightarrow>
            storeMachine g machine = Some (False, g)) \<and>
         (\<forall>l<length (levels g).
            spotsAvailable (levels g ! l) machine \<noteq> [] \<and>
            (\<forall>l'<l. spotsAvailable (levels g ! l') machine = []) \<longrightarrow>
            (\<exists>g'. storeMachine g machine = Some (True, g') \<and>
               machineLocations g' (identifier machine) =
                 Some (int l, spotsAvailable (levels g ! l) machine) \<and>
               (\<forall>idx\<in>set (spotsAvailable (levels g ! l) machine).
                  occupiedBy g' (int l) idx (identifier machine))))"
proof -
  from inv have wf: "wfLevels (levels g)" by (simp add: garageInv_def)
  from wf new show ?thesis
  proof (cases rule: storeMachine_cases)
    case Full
    then show ?thesis by simp
  next
    case (Parked k slots')
    then obtain g' where st: "storeMachine g machine = Some (True, g')" by simp
    from park_first_fit [OF inv st] obtain m where m: "m < length (levels g)"
      "spotsAvailable (levels g ! m) machine \<noteq> []"
      "\<forall>l'<m. spotsAvailable (levels g ! l') machine = []"
      "machineLocations g' (identifier machine) = Some (int m, spotsAvailable (levels g ! m) machine)"
      "\<forall>idx\<in>set (spotsAvailable (levels g ! m) machine). occupiedBy g' (int m) idx (identifier machine)"
      by blast
    have first: "l = m" if "l < length (levels g)" "spotsAvailable (levels g ! l) machine \<noteq> []"
      "\<forall>l'<l. spotsAvailable (levels g ! l') machine = []" for l
    proof (rule ccontr)
      assume "l \<noteq> m"
      then consider "l < m" | "m < l" by linarith
      then show False
      proof cases
        case 1
        with m(3) that(2) show False by simp
      next
        case 2
        with that(3) m(2) show False by simp
      qed
    qed
    have "\<exists>g'. storeMachine g machine = Some (True, g') \<and>
               machineLocations g' (identifier machine) =
                 Some (int l, spotsAvailable (levels g ! l) machine) \<and>
               (\<forall>idx\<in>set (spotsAvailable (levels g ! l) machine).
                  occupiedBy g' (int l) idx (identifier machine))"
      if "l < length (levels g)" "spotsAvailable (levels g ! l) machine \<noteq> []"
      "\<forall>l'<l. spotsAvailable (levels g ! l') machine = []" for l
      using first [OF that] st m(4,5) by blast
    moreover from Parked(1,3)
    have "\<not> (\<forall>l<length (levels g). spotsAvailable (levels g ! l) machine = [])" by blast
    ultimately show ?thesis by blast
  qed
qed

text \<open>
  Claim C3: in every garage state reached from a freshly constructed garage, and for every
  machine: on each level \<open>spotsAvailable\<close> returns the lowest free slot index for a machine
  that needs 1 slot, the lowest pair \<open>i\<close>, \<open>i + 1\<close> of free slots of that level for a machine
  that needs 2, and the empty list when the level has no such slot or pair. For a machine
  that is not parked, \<open>storeMachine\<close> fails and leaves the garage as it is when
  \<open>spotsAvailable\<close> is empty on every level; otherwise it succeeds on the first level, in
  ascending order, where \<open>spotsAvailable\<close> is not empty, and records and occupies exactly the
  slots returned there. Every successful \<open>storeMachine\<close> is of this kind.
\<close>

theorem first_fit:
  assumes "runOps (newGarage totalLevels slotsEach) ops = Some g"
  shows "(\<forall>l<length (levels g).
            (slotsNeeded machine = 1 \<longrightarrow>
               ((\<forall>i. \<not> freeIn (levels g ! l) i) \<longrightarrow> spotsAvailable (levels g ! l) machine = []) \<and>
               (\<forall>i. freeIn (levels g ! l) i \<and> (\<forall>j<i. \<not> freeIn (levels g ! l) j) \<longrightarrow>
                  spotsAvailable (levels g ! l) machine = [int i])) \<and>
            (slotsNeeded machine = 2 \<longrightarrow>
               ((\<forall>i. \<not> freePairIn (levels g ! l) i) \<longrightarrow> spotsAvailable (levels g ! l) machine = []) \<and>
               (\<forall>i. freePairIn (levels g ! l) i \<and> (\<forall>j<i. \<not> freePairIn (levels g ! l) j) \<longrightarrow>
                  spotsAvailable (levels g ! l) machine = [int i, int i + 1]))) \<and>
         (machineLocations g (identifier machine) = None \<longrightarrow>
            ((\<forall>l<length (levels g). spotsAvailable (levels g ! l) machine = []) \<longrightarrow>
               storeMachine g machine = Some (False, g)) \<and>
            (\<forall>l<length (levels g).
               spotsAvailable (levels g ! l) machine \<noteq> [] \<and>
               (\<forall>l'<l. spotsAvailable (levels g ! l') machine = []) \<longrightarrow>
               (\<exists>g'. storeMachine g machine = Some (True, g') \<and>
                  machineLocations g' (identifier machine) =
                    Some (int l, spotsAvailable (levels g ! l) machine) \<and>
                  (\<forall>idx\<in>set (spotsAvailable (levels g ! l) machine).
                     occupiedBy g' (int l) idx (identifier machine))))) \<and>
         (\<forall>g'. storeMachine g machine = Some (True, g') \<longrightarrow>
            (\<exists>l<length (levels g). spotsAvailable (levels g ! l) machine \<noteq> [] \<and>
               (\<forall>l'<l. spotsAvailable (levels g ! l') machine = []) \<and>
               machineLocations g' (identifier machine) =
                 Some (int l, spotsAvailable (levels g ! l) machine) \<and>
               (\<forall>idx\<in>set (spotsAvailable (levels g ! l) machine).
                  occupiedBy g' (int l) idx (identifier machine))))"
proof -
  note inv = reachable_inv [OF assms]
  have wf: "wfSlots (slotList (levels g ! l))" if "l < length (levels g)" for l
    using inv that by (simp add: garageInv_def wfLevels_def)
  have level: "(slotsNeeded machine = 1 \<longrightarrow>
               ((\<forall>i. \<not> freeIn (levels g ! l) i) \<longrightarrow> spotsAvailable (levels g ! l) machine = []) \<and>
               (\<forall>i. freeIn (levels g ! l) i \<and> (\<forall>j<i. \<not> freeIn (levels g ! l) j) \<longrightarrow>
                  spotsAvailable (levels g ! l) machine = [int i])) \<and>
            (slotsNeeded machine = 2 \<longrightarrow>
               ((\<forall>i. \<not> freePairIn (levels g ! l) i) \<longrightarrow> spotsAvailable (levels g ! l) machine = []) \<and>
               (\<forall>i. freePairIn (levels g ! l) i \<and> (\<forall>j<i. \<not> freePairIn (levels g ! l) j) \<longrightarrow>
                  spotsAvailable (levels g ! l) machine = [int i, int i + 1]))"
    if "l < length (levels g)" for l
    using spotsAvailable_first_one [OF wf [OF that], of machine]
      spotsAvailable_first_two [OF wf [OF that], of machine]
    by blast
  have scan: "machineLocations g (identifier machine) = None \<longrightarrow>
            ((\<forall>l<length (levels g). spotsAvailable (levels g ! l) machine = []) \<longrightarrow>
               storeMachine g machine = Some (False, g)) \<and>
            (\<forall>l<length (levels g).
               spotsAvailable (levels g ! l) machine \<noteq> [] \<and>
               (\<forall>l'<l. spotsAvailable (levels g ! l') machine = []) \<longrightarrow>
               (\<exists>g'. storeMachine g machine = Some (True, g') \<and>
                  machineLocations g' (identifier machine) =
                    Some (int l, spotsAvailable (levels g ! l) machine) \<and>
                  (\<forall>idx\<in>set (spotsAvailable (levels g ! l) machine).
                     occupiedBy g' (int l) idx (identifier machine))))"
    using park_first_level [OF inv, of machine] by blast
  from level scan park_first_fit [OF inv, of machine] show ?thesis by blast
qed

subsection \<open>The claims at concrete garages\<close>

lemmas eval_defs = step_def storeMachine_def unparkMachine_def removeMachine_def spotsAvailable_def
  slotsNeeded_def assignMachine_def inRange_def upto.simps firstPair.simps vacateSlot_def

lemma store_carA1: "storeMachine (newGarage 1 2) carA1 = Some (True, garageA1)"
  by (simp add: example_defs eval_defs)

lemma store_truckB1_full: "storeMachine garageA1 truckB1 = Some (False, garageA1)"
  by (simp add: example_defs eval_defs)

theorem locations_match_slots_witness:
  "runOps (newGarage 1 2) [Store carA1] = Some garageA1 \<and>
   machineLocations garageA1 ''A1'' = Some (0, [0]) \<and>
   machineCatalog garageA1 ''A1'' \<noteq> None \<and>
   occupiedBy garageA1 0 0 ''A1''"
proof -
  from locations_match_slots [of 1 2 "[Store carA1]"] run_garageA1
  have c: "(\<forall>machineId. (machineLocations garageA1 machineId \<noteq> None) =
              (machineCatalog garageA1 machineId \<noteq> None))"
    "(\<forall>machineId lv idxs. machineLocations garageA1 machineId = Some (lv, idxs) \<longrightarrow>
        idxs \<noteq> [] \<and> (\<forall>idx\<in>set idxs. occupiedBy garageA1 lv idx machineId))"
    by auto
  have l: "machineLocations garageA1 ''A1'' = Some (0, [0])" by (simp add: garageA1_def)
  with c(1) have "machineCatalog garageA1 ''A1'' \<noteq> None" by (metis option.distinct(1))
  moreover from c(2) l have "occupiedBy garageA1 0 0 ''A1''" by fastforce
  ultimately show ?thesis using l run_garageA1 by simp
qed

theorem availability_sum_witness:
  "(0::int) \<le> 1 \<and> (0::int) \<le> 2 \<and> runOps (newGarage 1 2) [Store carA1] = Some garageA1 \<and>
   sum_list (map freeSlotsCount (levels garageA1)) = 1 * 2 - slotsNeeded carA1 \<and>
   sum_list (map freeSlotsCount (levels garageA1)) = 1"
proof -
  have "dom (machineCatalog garageA1) = {''A1''}" by (simp add: garageA1_def)
  then have "(\<Sum>machineId\<in>dom (machineCatalog garageA1).
      slotsNeeded (the (machineCatalog garageA1 machineId))) = slotsNeeded carA1"
    by (simp add: garageA1_def)
  with availability_sum [of 1 2 "[Store carA1]"] run_garageA1
  have "sum_list (map freeSlotsCount (levels garageA1)) = 1 * 2 - slotsNeeded carA1"
    by simp
  with run_garageA1 show ?thesis by (simp add: slotsNeeded_def carA1_def)
qed

theorem storeMachine_failure_unchanged_witness:
  "machineLocations garageA1 (identifier truckB1) = None \<and>
   storeMachine garageA1 truckB1 = Some (False, garageA1)"
proof -
  have h: "machineLocations garageA1 (identifier truckB1) = None"
    by (simp add: garageA1_def truckB1_def)
  have "\<exists>g'. storeMachine garageA1 truckB1 = Some (False, g')"
    by (simp add: example_defs eval_defs)
  then obtain g' where s: "storeMachine garageA1 truckB1 = Some (False, g')" ..
  from storeMachine_failure_unchanged [OF h s] h s show ?thesis by simp
qed

theorem park_unpark_roundtrip_witness:
  "runOps (newGarage 1 2) [] = Some (newGarage 1 2) \<and>
   machineLocations (newGarage 1 2) (identifier carA1) = None \<and>
   storeMachine (newGarage 1 2) carA1 = Some (True, garageA1) \<and>
   unparkMachine garageA1 (identifier carA1) = Some (True, newGarage 1 2)"
proof -
  have r: "runOps (newGarage 1 2) [] = Some (newGarage 1 2)" by simp
  have n: "machineLocations (newGarage 1 2) (identifier carA1) = None"
    by (simp add: newGarage_def)
  from park_unpark_roundtrip [OF r n store_carA1] r n store_carA1 show ?thesis by simp
qed

lemma run_garage22A1: "runOps (newGarage 2 2) [Store carA1] = Some garage22A1"
  by (simp add: example_defs eval_defs garage22A1_def)

theorem first_fit_witness:
  "runOps (newGarage 2 2) [Store carA1] = Some garage22A1 \<and>
   slotsNeeded carC1 = 1 \<and> slotsNeeded truckB1 = 2 \<and>
   machineLocations garage22A1 (identifier carC1) = None \<and>
   machineLocations garage22A1 (identifier truckB1) = None \<and>
   spotsAvailable (levels garage22A1 ! 0) carC1 = [1] \<and>
   spotsAvailable (levels garage22A1 ! 0) truckB1 = [] \<and>
   spotsAvailable (levels garage22A1 ! 1) truckB1 = [0, 1] \<and>
   (\<exists>g'. storeMachine garage22A1 carC1 = Some (True, g') \<and>
      machineLocations g' ''C1'' = Some (0, [1]) \<and> occupiedBy g' 0 1 ''C1'') \<and>
   (\<exists>g'. storeMachine garage22A1 truckB1 = Some (True, g') \<and>
      machineLocations g' ''B1'' = Some (1, [0, 1]) \<and>
      occupiedBy g' 1 0 ''B1'' \<and> occupiedBy g' 1 1 ''B1'')"
proof -
  note car = first_fit [OF run_garage22A1, of carC1]
  note truck = first_fit [OF run_garage22A1, of truckB1]
  have one: "slotsNeeded carC1 = 1" and two: "slotsNeeded truckB1 = 2"
    by (simp_all add: slotsNeeded_def carC1_def truckB1_def)
  have nc: "machineLocations garage22A1 (identifier carC1) = None"
    and nt: "machineLocations garage22A1 (identifier truckB1) = None"
    by (simp_all add: garage22A1_def carC1_def truckB1_def)
  have l0: "0 < length (levels garage22A1)" and l1: "1 < length (levels garage22A1)"
    by (simp_all add: garage22A1_def)
  \<comment> \<open>level 0: slot 1 is the lowest free slot, and there is no free pair\<close>
  have f1: "freeIn (levels garage22A1 ! 0) 1 \<and> (\<forall>j<1. \<not> freeIn (levels garage22A1 ! 0) j)"
    by (simp add: freeIn_def garage22A1_def newSlot_def)
  have nopair: "\<forall>i. \<not> freePairIn (levels garage22A1 ! 0) i"
    by (auto simp: freePairIn_def freeIn_def garage22A1_def newSlot_def less_Suc_eq)
  \<comment> \<open>level 1: slots 0 and 1 are the lowest free pair\<close>
  have p0: "freePairIn (levels garage22A1 ! 1) 0 \<and> (\<forall>j<0. \<not> freePairIn (levels garage22A1 ! 1) j)"
    by (simp add: freePairIn_def freeIn_def garage22A1_def newSlot_def)
  note car0 = car [THEN conjunct1, rule_format, OF l0, THEN conjunct1, rule_format, OF one]
  note truck0 = truck [THEN conjunct1, rule_format, OF l0, THEN conjunct2, rule_format, OF two]
  note truck1 = truck [THEN conjunct1, rule_format, OF l1, THEN conjunct2, rule_format, OF two]
  from car0 [THEN conjunct2, rule_format, OF f1]
  have sc: "spotsAvailable (levels garage22A1 ! 0) carC1 = [1]" by simp
  from truck0 [THEN conjunct1, rule_format, OF nopair [rule_format]]
  have st0: "spotsAvailable (levels garage22A1 ! 0) truckB1 = []" .
  from truck1 [THEN conjunct2, rule_format, OF p0]
  have st1: "spotsAvailable (levels garage22A1 ! 1) truckB1 = [0, 1]" by simp
  \<comment> \<open>the car goes to level 0, the truck past level 0 to level 1\<close>
  from sc have mc: "spotsAvailable (levels garage22A1 ! 0) carC1 \<noteq> [] \<and>
      (\<forall>l'<0. spotsAvailable (levels garage22A1 ! l') carC1 = [])" by simp
  from st0 st1 have mt: "spotsAvailable (levels garage22A1 ! 1) truckB1 \<noteq> [] \<and>
      (\<forall>l'<1. spotsAvailable (levels garage22A1 ! l') truckB1 = [])" by simp
  from car [THEN conjunct2, THEN conjunct1, rule_format, OF nc, THEN conjunct2, rule_format, OF l0 mc]
  obtain gc where gc: "storeMachine garage22A1 carC1 = Some (True, gc)"
    "machineLocations gc (identifier carC1) = Some (int 0, spotsAvailable (levels garage22A1 ! 0) carC1)"
    "\<forall>idx\<in>set (spotsAvailable (levels garage22A1 ! 0) carC1). occupiedBy gc (int 0) idx (identifier carC1)"
    by blast
  from truck [THEN conjunct2, THEN conjunct1, rule_format, OF nt, THEN conjunct2, rule_format, OF l1 mt]
  obtain gt where gt: "storeMachine garage22A1 truckB1 = Some (True, gt)"
    "machineLocations gt (identifier truckB1) = Some (int 1, spotsAvailable (levels garage22A1 ! 1) truckB1)"
    "\<forall>idx\<in>set (spotsAvailable (levels garage22A1 ! 1) truckB1). occupiedBy gt (int 1) idx (identifier truckB1)"
    by blast
  from gc sc have c: "\<exists>g'. storeMachine garage22A1 carC1 = Some (True, g') \<and>
      machineLocations g' ''C1'' = Some (0, [1]) \<and> occupiedBy g' 0 1 ''C1''"
    by (simp add: carC1_def)
  from gt st1 have t: "\<exists>g'. storeMachine garage22A1 truckB1 = Some (True, g') \<and>
      machineLocations g' ''B1'' = Some (1, [0, 1]) \<and>
      occupiedBy g' 1 0 ''B1'' \<and> occupiedBy g' 1 1 ''B1''"
    by (simp add: truckB1_def)
  from run_garage22A1 one two nc nt sc st0 st1 c t show ?thesis by simp
qed

text \<open>
  The scenario of a garage with two levels of one slot: \<open>X\<close> takes level 0, \<open>Y\<close> falls through
  to level 1, and \<open>Z\<close> finds no space.
\<close>

lemma scenario_two_levels:
  "\<exists>g1 g2. runOps (newGarage 2 1) [Store \<lparr>identifier = ''X'', kind = Bike\<rparr>] = Some g1 \<and>
      machineLocations g1 ''X'' = Some (0, [0]) \<and>
      storeMachine g1 \<lparr>identifier = ''Y'', kind = Bike\<rparr> = Some (True, g2) \<and>
      machineLocations g2 ''Y'' = Some (1, [0]) \<and>
      storeMachine g2 \<lparr>identifier = ''Z'', kind = Bike\<rparr> = Some (False, g2)"
  by (simp add: example_defs eval_defs)

theorem truck_parks_iff_free_pair_witness:
  "runOps (newGarage 1 2) [] = Some (newGarage 1 2) \<and>
   kind truckB1 = Truck \<and>
   machineLocations (newGarage 1 2) (identifier truckB1) = None \<and>
   freePairIn (levels (newGarage 1 2) ! 0) 0 \<and>
   (\<exists>g'. storeMachine (newGarage 1 2) truckB1 = Some (True, g') \<and>
      machineLocations g' ''B1'' = Some (0, [0, 1]) \<and>
      freeSlotsCount (levels g' ! 0) = 0)"
proof -
  have r: "runOps (newGarage 1 2) [] = Some (newGarage 1 2)" by simp
  have t: "kind truckB1 = Truck" by (simp add: truckB1_def)
  have n: "machineLocations (newGarage 1 2) (identifier truckB1) = None"
    by (simp add: newGarage_def)
  have lv: "levels (newGarage 1 2) = [newLevel 0 2]"
    by (simp add: newGarage_def upto.simps)
  have sl: "slotList (newLevel 0 2) = [newSlot 0 0, newSlot 0 1]"
    by (simp add: newLevel_def upto.simps)
  have fp: "freePairIn (levels (newGarage 1 2) ! 0) i \<longleftrightarrow> i = 0" for i
    by (auto simp: lv sl freePairIn_def freeIn_def newSlot_def less_Suc_eq)
  have fc: "freeSlotsCount (levels (newGarage 1 2) ! 0) = 2"
    by (simp add: lv sl freeSlotsCount_def newSlot_def)
  from truck_parks_iff_free_pair [OF r t n] obtain b g' where
    s: "storeMachine (newGarage 1 2) truckB1 = Some (b, g')"
    and b: "b \<longleftrightarrow> (\<exists>l<length (levels (newGarage 1 2)). \<exists>i. freePairIn (levels (newGarage 1 2) ! l) i)"
    and c: "b \<longrightarrow> (\<exists>l<length (levels (newGarage 1 2)). \<exists>i. freePairIn (levels (newGarage 1 2) ! l) i \<and>
              machineLocations g' (identifier truckB1) = Some (int l, [int i, int i + 1]) \<and>
              freeSlotsCount (levels g' ! l) = freeSlotsCount (levels (newGarage 1 2) ! l) - 2)"
    by blast
  from b fp [of 0] have "b" by (auto simp: lv)
  with c obtain l i where l: "l < length (levels (newGarage 1 2))"
    "freePairIn (levels (newGarage 1 2) ! l) i"
    "machineLocations g' (identifier truckB1) = Some (int l, [int i, int i + 1])"
    "freeSlotsCount (levels g' ! l) = freeSlotsCount (levels (newGarage 1 2) ! l) - 2"
    by blast
  from l(1) have l0: "l = 0" by (simp add: lv)
  with l(2) fp have "i = 0" by simp
  with l(3,4) l0 fc have "machineLocations g' ''B1'' = Some (0, [0, 1])"
    "freeSlotsCount (levels g' ! 0) = 0"
    by (simp_all add: truckB1_def)
  with r t n fp [of 0] s \<open>b\<close> show ?thesis by auto
qed

text \<open>
  Claim C2 as stated, without the condition on the identifier, fails: after \<open>B1\<close> is parked
  in a garage of one level with four slots, slots 2 and 3 are free and adjacent, and parking
  a truck with the identifier \<open>B1\<close> is refused.
\<close>

theorem duplicate_truck_refused:
  "runOps (newGarage 1 4) [Store truckB1] = Some garageB1 \<and>
   kind truckB1 = Truck \<and>
   freePairIn (levels garageB1 ! 0) 2 \<and>
   storeMachine garageB1 truckB1 = Some (False, garageB1)"
  by (simp add: example_defs eval_defs garageB1_def freePairIn_def freeIn_def)

end
